theory Spec2Isabelle
  imports Main
begin

section \<open>Values and exceptions\<close>

text \<open>
  JavaScript values as far as the observer core inspects them: primitives, the
  number \<open>NaN\<close> (kept apart from the other numbers because \<open>===\<close> treats it
  specially) and references to heap objects.  A thrown value is opaque.
\<close>

datatype val = VUndefined | VNull | VBool bool | VNum int | VNaN | VStr string | VRef nat

datatype exn = Exn string

text \<open>\<open>a === b\<close>: identity on references, equality on primitives, never true on \<open>NaN\<close>.\<close>

definition strict_eq :: "val \<Rightarrow> val \<Rightarrow> bool" where
  "strict_eq a b = (a = b \<and> a \<noteq> VNaN)"

section \<open>Watcher (src/core/observer/watcher.js)\<close>

text \<open>
  A dependency subject is referred to by its \<open>id\<close>.  The class \<open>Dep\<close> lives in
  \<open>./dep\<close>, which is not part of the sources; calls of its methods \<open>addSub\<close> and
  \<open>removeSub\<close> are recorded as a trace.
\<close>

datatype dep_call = AddSub nat nat | RemoveSub nat nat

text \<open>
  What one run of a user-supplied function (the getter) does, as far as the watcher
  can see it: the subjects whose \<open>depend()\<close> fired while it ran (in order), the
  watchers handed to \<open>queueWatcher\<close> while it ran, the user state it leaves, and
  whether it returned a value or threw.
\<close>

record 'u evaluation =
  touched :: "nat list"
  triggers :: "nat list"
  after :: 'u
  result :: "exn + val"

record 'u cb_run =
  cb_triggers :: "nat list"
  cb_after :: 'u
  cb_thrown :: "exn option"

record 'u watcher =
  vm :: nat
  id :: nat
  deep :: bool
  user :: bool
  lazy :: bool
  sync :: bool
  active :: bool
  dirty :: bool
  deps :: "nat list"
  newDeps :: "nat list"
  depIds :: "nat set"
  newDepIds :: "nat set"
  before :: "('u \<Rightarrow> 'u cb_run) option"
  getter :: "'u \<Rightarrow> 'u evaluation"
  cb :: "val \<Rightarrow> val \<Rightarrow> 'u \<Rightarrow> 'u cb_run"
  "value" :: val

text \<open>\<open>noop\<close> of the utilities: touches nothing and returns \<open>undefined\<close>.\<close>

definition noop :: "'u \<Rightarrow> 'u evaluation" where
  "noop u = \<lparr>touched = [], triggers = [], after = u, result = Inr VUndefined\<rparr>"

text \<open>\<open>addDep\<close>: record the subject in the new generation; subscribe unless the
  previous generation already held it.\<close>

definition addDep :: "'u watcher \<times> dep_call list \<Rightarrow> nat \<Rightarrow> 'u watcher \<times> dep_call list" where
  "addDep wl d =
     (let w = fst wl; lg = snd wl in
      if d \<notin> newDepIds w then
        (let w1 = w\<lparr>newDepIds := insert d (newDepIds w), newDeps := newDeps w @ [d]\<rparr> in
         if d \<notin> depIds w1 then (w1, lg @ [AddSub d (id w1)]) else (w1, lg))
      else (w, lg))"

text \<open>
  Modelled from the spec: \<open>Dep.depend\<close> (in the missing \<open>./dep\<close>): "if there is a
  currently-active subscriber (top of the global stack), call that subscriber's
  record-subject hook with this".  The subjects in \<open>ds\<close> fire while \<open>w\<close> is the
  active subscriber, so each one reaches \<open>addDep\<close> of \<open>w\<close>.
\<close>

fun depend_all :: "'u watcher \<times> dep_call list \<Rightarrow> nat list \<Rightarrow> 'u watcher \<times> dep_call list" where
  "depend_all wl [] = wl"
| "depend_all wl (d # ds) = depend_all (addDep wl d) ds"

text \<open>The loop \<open>let i = deps.length; while (i--) \<dots>\<close> of \<open>cleanupDeps\<close>.\<close>

fun cleanup_loop :: "'u watcher \<Rightarrow> nat \<Rightarrow> dep_call list \<Rightarrow> dep_call list" where
  "cleanup_loop w 0 lg = lg"
| "cleanup_loop w (Suc i) lg =
     cleanup_loop w i
       (if deps w ! i \<notin> newDepIds w then lg @ [RemoveSub (deps w ! i) (id w)] else lg)"

definition cleanupDeps :: "'u watcher \<times> dep_call list \<Rightarrow> 'u watcher \<times> dep_call list" where
  "cleanupDeps wl =
     (let w = fst wl; lg = cleanup_loop w (length (deps w)) (snd wl) in
      (w\<lparr>depIds := newDepIds w, newDepIds := {}, deps := newDeps w, newDeps := []\<rparr>, lg))"

datatype err_context = GetterOfWatcher | CallbackOfWatcher | NextTick

record 'u get_out =
  g_result :: "exn + val"
  g_watcher :: "'u watcher"
  g_calls :: "dep_call list"
  g_user :: 'u
  g_triggers :: "nat list"
  g_reported :: "(exn \<times> err_context) list"
  g_stack :: "nat list"

text \<open>
  \<open>get\<close>.  \<open>stack\<close> is the global stack of active subscribers that
  \<open>pushTarget\<close>/\<open>popTarget\<close> maintain; \<open>trav\<close> gives the subjects that
  \<open>traverse(value)\<close> (in the missing \<open>./traverse\<close>) touches.  The \<open>finally\<close>
  block runs on all three paths: value returned, error handed to \<open>handleError\<close>
  (user watcher), error rethrown.
\<close>

definition get :: "('u \<Rightarrow> val \<Rightarrow> nat list) \<Rightarrow> 'u watcher \<Rightarrow> 'u \<Rightarrow> nat list \<Rightarrow> 'u get_out" where
  "get trav w u stack =
     (let stack1 = id w # stack;
          ev = getter w u;
          wl1 = depend_all (w, []) (touched ev);
          v = (case result ev of Inr x \<Rightarrow> x | Inl e \<Rightarrow> VUndefined);
          rep = (case result ev of Inr x \<Rightarrow> [] | Inl e \<Rightarrow> if user w then [(e, GetterOfWatcher)] else []);
          res = (case result ev of Inr x \<Rightarrow> Inr x | Inl e \<Rightarrow> if user w then Inr VUndefined else Inl e);
          wl2 = (if deep w then depend_all wl1 (trav (after ev) v) else wl1);
          stack2 = tl stack1;
          wl3 = cleanupDeps wl2
      in \<lparr>g_result = res, g_watcher = fst wl3, g_calls = snd wl3, g_user = after ev,
          g_triggers = triggers ev, g_reported = rep, g_stack = stack2\<rparr>)"



definition example_watcher :: "unit watcher" where
  "example_watcher =
     \<lparr>vm = 0, id = 7, deep = False, user = False, lazy = False, sync = False, active = True,
      dirty = False, deps = [1, 2], newDeps = [], depIds = {1, 2}, newDepIds = {},
      before = None,
      getter = (\<lambda>u. \<lparr>touched = [2, 3, 3], triggers = [], after = u, result = Inl (Exn ''boom'')\<rparr>),
      cb = (\<lambda>v old u. \<lparr>cb_triggers = [], cb_after = u, cb_thrown = None\<rparr>),
      value = VUndefined\<rparr>"

text \<open>\<open>isObject\<close> of the utilities: \<open>obj !== null && typeof obj === 'object'\<close>.\<close>

definition isObject :: "val \<Rightarrow> bool" where
  "isObject v = (case v of VRef a \<Rightarrow> True | _ \<Rightarrow> False)"

record 'u run_out =
  r_thrown :: "exn option"
  r_watcher :: "'u watcher"
  r_calls :: "dep_call list"
  r_user :: 'u
  r_triggers :: "nat list"
  r_reported :: "(exn \<times> err_context) list"
  r_stack :: "nat list"

text \<open>
  \<open>run\<close>.  An error thrown by \<open>get\<close> leaves \<open>run\<close> at once.  The callback of a user
  watcher goes through \<open>invokeWithErrorHandling\<close>, which hands a thrown error to the
  error handler; the callback of any other watcher is called bare.
\<close>

definition run :: "('u \<Rightarrow> val \<Rightarrow> nat list) \<Rightarrow> 'u watcher \<Rightarrow> 'u \<Rightarrow> nat list \<Rightarrow> 'u run_out" where
  "run trav w u stack =
     (if active w then
        (let g = get trav w u stack; w1 = g_watcher g in
         case g_result g of
           Inl e \<Rightarrow>
             \<lparr>r_thrown = Some e, r_watcher = w1, r_calls = g_calls g, r_user = g_user g,
              r_triggers = g_triggers g, r_reported = g_reported g, r_stack = g_stack g\<rparr>
         | Inr v \<Rightarrow>
             if \<not> strict_eq v (value w1) \<or> isObject v \<or> deep w1 then
               (let oldValue = value w1;
                    w2 = w1\<lparr>value := v\<rparr>;
                    c = cb w2 v oldValue (g_user g)
                in \<lparr>r_thrown = (if user w2 then None else cb_thrown c),
                    r_watcher = w2, r_calls = g_calls g, r_user = cb_after c,
                    r_triggers = g_triggers g @ cb_triggers c,
                    r_reported = g_reported g @
                      (case cb_thrown c of
                         Some e \<Rightarrow> if user w2 then [(e, CallbackOfWatcher)] else []
                       | None \<Rightarrow> []),
                    r_stack = g_stack g\<rparr>)
             else
               \<lparr>r_thrown = None, r_watcher = w1, r_calls = g_calls g, r_user = g_user g,
                r_triggers = g_triggers g, r_reported = g_reported g, r_stack = g_stack g\<rparr>)
      else
        \<lparr>r_thrown = None, r_watcher = w, r_calls = [], r_user = u, r_triggers = [],
         r_reported = [], r_stack = stack\<rparr>)"

subsection \<open>The constructor\<close>

text \<open>The development-mode warning of the constructor, with the path it quotes.\<close>

datatype warning = FailedWatchingPath string

datatype 'u exp_or_fn = Fn "'u \<Rightarrow> 'u evaluation" | Path string

record 'u options =
  o_deep :: bool
  o_user :: bool
  o_lazy :: bool
  o_sync :: bool
  o_before :: "('u \<Rightarrow> 'u cb_run) option"

text \<open>The owning component, as far as the watcher and the scheduler read and write it:
  \<open>_watcher\<close>, \<open>_watchers\<close>, \<open>_isMounted\<close> and \<open>_isDestroyed\<close>.\<close>

record component =
  vm_watcher :: "nat option"
  vm_watchers :: "nat list"
  isMounted :: bool
  isDestroyed :: bool

record 'u new_out =
  n_thrown :: "exn option"
  n_watcher :: "'u watcher"
  n_vm :: component
  n_uid :: nat
  n_warned :: "warning list"
  n_calls :: "dep_call list"
  n_user :: 'u
  n_triggers :: "nat list"
  n_reported :: "(exn \<times> err_context) list"
  n_stack :: "nat list"

text \<open>
  \<open>new Watcher(vm, expOrFn, cb, options, isRenderWatcher)\<close>.  \<open>parsePath\<close> (in the
  missing utilities) is a parameter: it yields a getter for a path it accepts and
  nothing otherwise.  \<open>vmr\<close> is the reference to the component, \<open>vm0\<close> its state.  \<open>production\<close> is \<open>process.env.NODE_ENV === 'production'\<close>;
  \<open>uid\<close> is the module's counter.  The watcher is referred to by its id.
\<close>

definition new_Watcher ::
  "(string \<Rightarrow> ('u \<Rightarrow> 'u evaluation) option) \<Rightarrow> bool \<Rightarrow> ('u \<Rightarrow> val \<Rightarrow> nat list) \<Rightarrow> nat \<Rightarrow>
   nat \<Rightarrow> component \<Rightarrow> 'u exp_or_fn \<Rightarrow> (val \<Rightarrow> val \<Rightarrow> 'u \<Rightarrow> 'u cb_run) \<Rightarrow> 'u options option \<Rightarrow> bool \<Rightarrow>
   'u \<Rightarrow> nat list \<Rightarrow> 'u new_out" where
  "new_Watcher parsePath production trav uid vmr vm0 expOrFn cb0 opts isRenderWatcher u stack =
     (let uid1 = uid + 1;
          vm1 = (if isRenderWatcher then vm0\<lparr>vm_watcher := Some uid1\<rparr> else vm0);
          vm2 = vm1\<lparr>vm_watchers := vm_watchers vm1 @ [uid1]\<rparr>;
          lz = (case opts of Some o1 \<Rightarrow> o_lazy o1 | None \<Rightarrow> False);
          parsed = (case expOrFn of Fn f \<Rightarrow> Some f | Path p \<Rightarrow> parsePath p);
          warned = (case expOrFn of
                      Fn f \<Rightarrow> []
                    | Path p \<Rightarrow>
                        if parsed = None \<and> \<not> production then
                          [FailedWatchingPath p]
                        else []);
          w = \<lparr>vm = vmr, id = uid1,
               deep = (case opts of Some o1 \<Rightarrow> o_deep o1 | None \<Rightarrow> False),
               user = (case opts of Some o1 \<Rightarrow> o_user o1 | None \<Rightarrow> False),
               lazy = lz,
               sync = (case opts of Some o1 \<Rightarrow> o_sync o1 | None \<Rightarrow> False),
               active = True, dirty = lz, deps = [], newDeps = [], depIds = {}, newDepIds = {},
               before = (case opts of Some o1 \<Rightarrow> o_before o1 | None \<Rightarrow> None),
               getter = (case parsed of Some f \<Rightarrow> f | None \<Rightarrow> noop),
               cb = cb0, value = VUndefined\<rparr>
      in if lz then
           \<lparr>n_thrown = None, n_watcher = w, n_vm = vm2, n_uid = uid1, n_warned = warned,
            n_calls = [], n_user = u, n_triggers = [], n_reported = [], n_stack = stack\<rparr>
         else
           (let g = get trav w u stack in
            \<lparr>n_thrown = (case g_result g of Inl e \<Rightarrow> Some e | Inr v \<Rightarrow> None),
             n_watcher = (case g_result g of Inl e \<Rightarrow> g_watcher g
                          | Inr v \<Rightarrow> (g_watcher g)\<lparr>value := v\<rparr>),
             n_vm = vm2, n_uid = uid1, n_warned = warned, n_calls = g_calls g,
             n_user = g_user g, n_triggers = g_triggers g, n_reported = g_reported g,
             n_stack = g_stack g\<rparr>))"

section \<open>Deferred execution (\<open>flushCallbacks\<close> and \<open>nextTick\<close>, third part of src/core/observer/array.js)\<close>

text \<open>
  A callback handed to \<open>nextTick\<close> is either the scheduler's own
  \<open>flushSchedulerQueue\<close> or a user function, referred to by a number.  \<open>nextTick\<close>
  pushes a closure over \<open>cb\<close>, \<open>ctx\<close> and \<open>_resolve\<close>; the closure is kept as an
  entry: the callback when one was given, otherwise whether \<open>_resolve\<close> got set
  (that is, whether \<open>Promise\<close> exists).
\<close>

datatype tick_cb = FlushSchedulerQueue | UserFn nat

datatype entry = WithCb tick_cb | NoCb bool

record tick_state =
  callbacks :: "entry list"
  pending :: bool
  timer_calls :: nat

text \<open>
  \<open>nextTick(cb, ctx)\<close>; \<open>timerFunc()\<close> is counted.  The second component tells
  whether a promise is returned.
\<close>

definition nextTick :: "bool \<Rightarrow> tick_cb option \<Rightarrow> tick_state \<Rightarrow> tick_state \<times> bool" where
  "nextTick hasPromise c ts =
     (let ts1 = ts\<lparr>callbacks := callbacks ts @
                   [case c of Some f \<Rightarrow> WithCb f | None \<Rightarrow> NoCb hasPromise]\<rparr>;
          ts2 = (if \<not> pending ts1 then ts1\<lparr>pending := True, timer_calls := timer_calls ts1 + 1\<rparr>
                 else ts1)
      in (ts2, c = None \<and> hasPromise))"

text \<open>
  What one run of a callback does: the \<open>nextTick\<close> calls it makes (in order, each
  with the callback it passes, if any), the user state it leaves, and the error it
  throws, if any.
\<close>

record 'u tick_run =
  registers :: "tick_cb option list"
  t_after :: 'u
  t_thrown :: "exn option"

record 'u flush_out =
  f_state :: tick_state
  f_user :: 'u
  f_ran :: "entry list"
  f_handled :: "(exn \<times> err_context) list"
  f_resolved :: nat

fun register_all :: "bool \<Rightarrow> tick_cb option list \<Rightarrow> tick_state \<Rightarrow> tick_state" where
  "register_all hasPromise [] ts = ts"
| "register_all hasPromise (c # cs) ts = register_all hasPromise cs (fst (nextTick hasPromise c ts))"

text \<open>
  Calling one entry, that is, the closure pushed by \<open>nextTick\<close>: with a callback,
  \<open>try { cb.call(ctx) } catch (e) { handleError(e, ctx, 'nextTick') }\<close>; without one,
  \<open>_resolve(ctx)\<close> when \<open>_resolve\<close> is set.
\<close>

definition call_entry ::
  "(tick_cb \<Rightarrow> 'u \<Rightarrow> 'u tick_run) \<Rightarrow> bool \<Rightarrow> entry \<Rightarrow> 'u flush_out \<Rightarrow> 'u flush_out" where
  "call_entry beh hasPromise e acc =
     (case e of
        WithCb f \<Rightarrow>
          (let r = beh f (f_user acc) in
           acc\<lparr>f_state := register_all hasPromise (registers r) (f_state acc),
               f_user := t_after r,
               f_ran := f_ran acc @ [e],
               f_handled := f_handled acc @
                 (case t_thrown r of Some x \<Rightarrow> [(x, NextTick)] | None \<Rightarrow> [])\<rparr>)
      | NoCb resolve \<Rightarrow>
          acc\<lparr>f_ran := f_ran acc @ [e],
              f_resolved := (if resolve then f_resolved acc + 1 else f_resolved acc)\<rparr>)"

text \<open>The loop \<open>for (let i = 0; i < copies.length; i++) copies[i]()\<close>.\<close>

fun run_copies ::
  "(tick_cb \<Rightarrow> 'u \<Rightarrow> 'u tick_run) \<Rightarrow> bool \<Rightarrow> entry list \<Rightarrow> 'u flush_out \<Rightarrow> 'u flush_out" where
  "run_copies beh hasPromise [] acc = acc"
| "run_copies beh hasPromise (e # es) acc =
     run_copies beh hasPromise es (call_entry beh hasPromise e acc)"

definition flushCallbacks ::
  "(tick_cb \<Rightarrow> 'u \<Rightarrow> 'u tick_run) \<Rightarrow> bool \<Rightarrow> tick_state \<Rightarrow> 'u \<Rightarrow> 'u flush_out" where
  "flushCallbacks beh hasPromise ts u =
     (let ts1 = ts\<lparr>pending := False\<rparr>;
          copies = callbacks ts1;
          ts2 = ts1\<lparr>callbacks := []\<rparr>
      in run_copies beh hasPromise copies
           \<lparr>f_state = ts2, f_user = u, f_ran = [], f_handled = [], f_resolved = 0\<rparr>)"

text \<open>
  For stating what a flush does: the \<open>nextTick\<close> calls made, and the errors thrown,
  by the entries of a list when they are called one after the other from user state
  \<open>u\<close>.
\<close>

fun registered_during ::
  "(tick_cb \<Rightarrow> 'u \<Rightarrow> 'u tick_run) \<Rightarrow> entry list \<Rightarrow> 'u \<Rightarrow> tick_cb option list" where
  "registered_during beh [] u = []"
| "registered_during beh (WithCb f # es) u =
     registers (beh f u) @ registered_during beh es (t_after (beh f u))"
| "registered_during beh (NoCb b # es) u = registered_during beh es u"

fun thrown_during ::
  "(tick_cb \<Rightarrow> 'u \<Rightarrow> 'u tick_run) \<Rightarrow> entry list \<Rightarrow> 'u \<Rightarrow> exn list" where
  "thrown_during beh [] u = []"
| "thrown_during beh (WithCb f # es) u =
     (case t_thrown (beh f u) of Some x \<Rightarrow> [x] | None \<Rightarrow> []) @
     thrown_during beh es (t_after (beh f u))"
| "thrown_during beh (NoCb b # es) u = thrown_during beh es u"

definition entry_of :: "bool \<Rightarrow> tick_cb option \<Rightarrow> entry" where
  "entry_of hasPromise c = (case c of Some f \<Rightarrow> WithCb f | None \<Rightarrow> NoCb hasPromise)"

text \<open>An example: callback 1 throws, callback 2 registers callback 3; each one appends
  its number to the user state.\<close>

definition example_beh :: "tick_cb \<Rightarrow> nat list \<Rightarrow> nat list tick_run" where
  "example_beh c u =
     (case c of
        FlushSchedulerQueue \<Rightarrow> \<lparr>registers = [], t_after = u, t_thrown = None\<rparr>
      | UserFn n \<Rightarrow>
          \<lparr>registers = (if n = 2 then [Some (UserFn 3)] else []),
           t_after = u @ [n],
           t_thrown = (if n = 1 then Some (Exn ''boom'') else None)\<rparr>)"

definition example_ticks :: tick_state where
  "example_ticks =
     \<lparr>callbacks = [WithCb (UserFn 1), WithCb (UserFn 2), WithCb (UserFn 4)],
      pending = True, timer_calls = 1\<rparr>"

section \<open>Scheduler (second part of src/core/observer/array.js)\<close>

text \<open>
  The presence table \<open>has\<close> holds \<open>true\<close> or \<open>null\<close> under an id, or nothing.
  Watchers are objects shared between the queue and their owners, so the queue holds
  references and \<open>watchers\<close> maps a reference to the object.  Besides the module's
  variables the record carries the state of \<open>nextTick\<close>, the user state, and the
  traces of what has been called: \<open>s_ran\<close> lists the references whose \<open>run()\<close> was
  called, \<open>s_hooks\<close> the lifecycle hooks (which live in the missing
  \<open>../instance/lifecycle\<close>).
\<close>

datatype mark = MTrue | MNull

datatype hook = Activated nat | Updated nat | DevtoolsFlush

record 'u scheduler =
  queue :: "nat list"
  activatedChildren :: "nat list"
  has :: "nat \<rightharpoonup> mark"
  circular :: "nat \<rightharpoonup> nat"
  waiting :: bool
  flushing :: bool
  index :: nat
  currentFlushTimestamp :: nat
  ticks :: tick_state
  watchers :: "nat \<Rightarrow> 'u watcher"
  components :: "nat \<Rightarrow> component"
  s_user :: 'u
  s_calls :: "dep_call list"
  s_reported :: "(exn \<times> err_context) list"
  s_stack :: "nat list"
  s_ran :: "nat list"
  s_hooks :: "hook list"

definition MAX_UPDATE_COUNT :: nat where
  "MAX_UPDATE_COUNT = 100"

text \<open>\<open>has[id] == null\<close>: true for \<open>null\<close> and for a missing entry.\<close>

definition is_null :: "mark option \<Rightarrow> bool" where
  "is_null m = (case m of None \<Rightarrow> True | Some MNull \<Rightarrow> True | Some MTrue \<Rightarrow> False)"

definition resetSchedulerState :: "bool \<Rightarrow> 'u scheduler \<Rightarrow> 'u scheduler" where
  "resetSchedulerState production S =
     (let S1 = S\<lparr>index := 0, queue := [], activatedChildren := []\<rparr>;
          S2 = S1\<lparr>has := Map.empty\<rparr>;
          S3 = (if \<not> production then S2\<lparr>circular := Map.empty\<rparr> else S2)
      in S3\<lparr>waiting := False, flushing := False\<rparr>)"

text \<open>The id of the watcher behind a reference.\<close>

definition wid :: "'u scheduler \<Rightarrow> nat \<Rightarrow> nat" where
  "wid S r = id (watchers S r)"

text \<open>
  The scan of \<open>queueWatcher\<close>:
  \<open>while (i > index && queue[i].id > watcher.id) i--\<close>, over the ids of the queue.
\<close>

function scan :: "nat list \<Rightarrow> nat \<Rightarrow> nat \<Rightarrow> int \<Rightarrow> int" where
  "scan ids idx w i = (if i > int idx \<and> ids ! nat i > w then scan ids idx w (i - 1) else i)"
  by pat_completeness auto
termination
  by (relation "measure (\<lambda>(ids, idx, w, i). nat (i - int idx))") auto

declare scan.simps [simp del]

definition queueWatcher :: "bool \<Rightarrow> nat \<Rightarrow> 'u scheduler \<Rightarrow> 'u scheduler" where
  "queueWatcher hasPromise r S =
     (let i0 = wid S r in
      if is_null (has S i0) then
        (let S1 = S\<lparr>has := (has S)(i0 \<mapsto> MTrue)\<rparr>;
             S2 = (if \<not> flushing S1 then S1\<lparr>queue := queue S1 @ [r]\<rparr>
                   else
                     (let i = scan (map (wid S1) (queue S1)) (index S1) i0
                                (int (length (queue S1)) - 1);
                          p = nat (i + 1)
                      in S1\<lparr>queue := take p (queue S1) @ [r] @ drop p (queue S1)\<rparr>))
         in if \<not> waiting S2 then
              S2\<lparr>waiting := True,
                 ticks := fst (nextTick hasPromise (Some FlushSchedulerQueue) (ticks S2))\<rparr>
            else S2)
      else S)"

fun enqueue_all :: "bool \<Rightarrow> nat list \<Rightarrow> 'u scheduler \<Rightarrow> 'u scheduler" where
  "enqueue_all hasPromise [] S = S"
| "enqueue_all hasPromise (r # rs) S = enqueue_all hasPromise rs (queueWatcher hasPromise r S)"

text \<open>
  The body of the loop of \<open>flushSchedulerQueue\<close> at the current \<open>index\<close>, in its
  two calls.  First \<open>if (watcher.before) watcher.before()\<close>; then \<open>id = watcher.id\<close>,
  \<open>has[id] = null\<close> and \<open>watcher.run()\<close>.  The watchers that the hook or the run hands
  to \<open>queueWatcher\<close> are enqueued; an error thrown by \<open>before()\<close> or by \<open>run()\<close> leaves
  the body, and the function, at once.
\<close>

definition call_before :: "bool \<Rightarrow> nat \<Rightarrow> 'u scheduler \<Rightarrow> exn option \<times> 'u scheduler" where
  "call_before hasPromise r S =
     (case before (watchers S r) of
        None \<Rightarrow> (None, S)
      | Some f \<Rightarrow>
          (let b = f (s_user S) in
           (cb_thrown b, enqueue_all hasPromise (cb_triggers b) (S\<lparr>s_user := cb_after b\<rparr>))))"

definition record_run :: "nat \<Rightarrow> 'u run_out \<Rightarrow> 'u scheduler \<Rightarrow> 'u scheduler" where
  "record_run r out S =
     S\<lparr>watchers := (watchers S)(r := r_watcher out),
       s_user := r_user out,
       s_calls := s_calls S @ r_calls out,
       s_reported := s_reported S @ r_reported out,
       s_stack := r_stack out,
       s_ran := s_ran S @ [r]\<rparr>"

definition call_run ::
  "('u \<Rightarrow> val \<Rightarrow> nat list) \<Rightarrow> bool \<Rightarrow> nat \<Rightarrow> 'u scheduler \<Rightarrow> exn option \<times> 'u scheduler" where
  "call_run trav hasPromise r S =
     (let i0 = wid S r;
          S1 = S\<lparr>has := (has S)(i0 \<mapsto> MNull)\<rparr>;
          out = run trav (watchers S1 r) (s_user S1) (s_stack S1)
      in (r_thrown out, enqueue_all hasPromise (r_triggers out) (record_run r out S1)))"

definition flush_iteration ::
  "('u \<Rightarrow> val \<Rightarrow> nat list) \<Rightarrow> bool \<Rightarrow> 'u scheduler \<Rightarrow> exn option \<times> 'u scheduler" where
  "flush_iteration trav hasPromise S =
     (let r = queue S ! index S in
      case call_before hasPromise r S of
        (Some e, S1) \<Rightarrow> (Some e, S1)
      | (None, S1) \<Rightarrow> call_run trav hasPromise r S1)"

text \<open>
  The loop \<open>for (index = 0; index < queue.length; index++)\<close>, after its
  initialisation.  It need not end, so it runs on fuel: \<open>None\<close> is "still running".
\<close>

fun flush_loop ::
  "nat \<Rightarrow> ('u \<Rightarrow> val \<Rightarrow> nat list) \<Rightarrow> bool \<Rightarrow> 'u scheduler \<Rightarrow> (exn option \<times> 'u scheduler) option" where
  "flush_loop 0 trav hasPromise S = None"
| "flush_loop (Suc n) trav hasPromise S =
     (if index S < length (queue S) then
        (case flush_iteration trav hasPromise S of
           (Some e, S1) \<Rightarrow> Some (Some e, S1)
         | (None, S1) \<Rightarrow> flush_loop n trav hasPromise (S1\<lparr>index := index S1 + 1\<rparr>))
      else Some (None, S))"

fun callActivatedHooks :: "nat list \<Rightarrow> 'u scheduler \<Rightarrow> 'u scheduler" where
  "callActivatedHooks [] S = S"
| "callActivatedHooks (c # cs) S = callActivatedHooks cs (S\<lparr>s_hooks := s_hooks S @ [Activated c]\<rparr>)"

text \<open>\<open>callUpdatedHooks\<close> walks the list from its end.\<close>

fun callUpdatedHooks :: "nat list \<Rightarrow> nat \<Rightarrow> 'u scheduler \<Rightarrow> 'u scheduler" where
  "callUpdatedHooks q 0 S = S"
| "callUpdatedHooks q (Suc i) S =
     callUpdatedHooks q i
       (let r = q ! i; c = components S (vm (watchers S r)) in
        if vm_watcher c = Some r \<and> isMounted c \<and> \<not> isDestroyed c
        then S\<lparr>s_hooks := s_hooks S @ [Updated (vm (watchers S r))]\<rparr> else S)"

text \<open>
  The head of \<open>flushSchedulerQueue\<close>, up to the initialisation of the loop: the
  timestamp, the flag, the sort by id (\<open>queue.sort((a, b) => a.id - b.id)\<close>, taken
  as stable) and \<open>index = 0\<close>.
\<close>

definition flush_begin :: "nat \<Rightarrow> 'u scheduler \<Rightarrow> 'u scheduler" where
  "flush_begin now S =
     (let S1 = S\<lparr>currentFlushTimestamp := now, flushing := True\<rparr>;
          S2 = S1\<lparr>queue := sort_key (wid S1) (queue S1)\<rparr>
      in S2\<lparr>index := 0\<rparr>)"

text \<open>
  \<open>flushSchedulerQueue\<close>.  \<open>now\<close> is what \<open>getNow()\<close> returns, \<open>devtools\<close> stands for
  \<open>devtools && config.devtools\<close>.
\<close>

definition flushSchedulerQueue ::
  "nat \<Rightarrow> ('u \<Rightarrow> val \<Rightarrow> nat list) \<Rightarrow> bool \<Rightarrow> bool \<Rightarrow> bool \<Rightarrow> nat \<Rightarrow> 'u scheduler \<Rightarrow>
   (exn option \<times> 'u scheduler) option" where
  "flushSchedulerQueue fuel trav hasPromise production devtools now S =
     (case flush_loop fuel trav hasPromise (flush_begin now S) of
           None \<Rightarrow> None
         | Some (Some e, S3) \<Rightarrow> Some (Some e, S3)
         | Some (None, S3) \<Rightarrow>
             (let activatedQueue = activatedChildren S3;
                  updatedQueue = queue S3;
                  S4 = resetSchedulerState production S3;
                  S5 = callActivatedHooks activatedQueue S4;
                  S6 = callUpdatedHooks updatedQueue (length updatedQueue) S5
              in Some (None, if devtools then S6\<lparr>s_hooks := s_hooks S6 @ [DevtoolsFlush]\<rparr> else S6)))"



text \<open>
  How the queue may change while the watcher at the cursor is being handled: the flush
  goes on, the cursor stays, the entries up to and including the cursor stay, and
  nothing leaves the queue or its part past the cursor.
\<close>

definition keeps_prefix :: "'u scheduler \<Rightarrow> 'u scheduler \<Rightarrow> bool" where
  "keeps_prefix S S1 =
     (flushing S1 \<and> index S1 = index S
      \<and> take (Suc (index S)) (queue S1) = take (Suc (index S)) (queue S)
      \<and> length (queue S) \<le> length (queue S1)
      \<and> set (queue S) \<subseteq> set (queue S1)
      \<and> set (drop (Suc (index S)) (queue S)) \<subseteq> set (drop (Suc (index S)) (queue S1)))"

text \<open>
  Examples.  \<open>sample_watcher i us th\<close> has id \<open>i\<close>; its getter appends \<open>i\<close> to the
  user state (a list of numbers) and then throws if \<open>th\<close> is set; \<open>us\<close> makes it a
  user watcher.  In \<open>sample_store\<close> every watcher is referred to by its id, watcher 1
  throws, and watcher 5 is a user watcher that throws.
\<close>

definition sample_watcher :: "nat \<Rightarrow> bool \<Rightarrow> bool \<Rightarrow> nat list watcher" where
  "sample_watcher i us th =
     \<lparr>vm = 0, id = i, deep = False, user = us, lazy = False, sync = False, active = True,
      dirty = False, deps = [], newDeps = [], depIds = {}, newDepIds = {}, before = None,
      getter = (\<lambda>u. \<lparr>touched = [], triggers = [], after = u @ [i],
                       result = (if th then Inl (Exn ''boom'') else Inr (VNum 0))\<rparr>),
      cb = (\<lambda>v old u. \<lparr>cb_triggers = [], cb_after = u, cb_thrown = None\<rparr>),
      value = VNum 0\<rparr>"

definition sample_store :: "nat \<Rightarrow> nat list watcher" where
  "sample_store r = sample_watcher r (r = 5) (r = 1 \<or> r = 5)"

definition sample_component :: component where
  "sample_component = \<lparr>vm_watcher = None, vm_watchers = [], isMounted = True, isDestroyed = False\<rparr>"

definition sample_sched :: "nat list \<Rightarrow> bool \<Rightarrow> nat list scheduler" where
  "sample_sched q fl =
     \<lparr>queue = q, activatedChildren = [],
      has = (\<lambda>i. if i \<in> set q then Some MTrue else None), circular = Map.empty,
      waiting = True, flushing = fl, index = 0, currentFlushTimestamp = 0,
      ticks = \<lparr>callbacks = [WithCb FlushSchedulerQueue], pending = True, timer_calls = 1\<rparr>,
      watchers = sample_store, components = (\<lambda>c. sample_component),
      s_user = [], s_calls = [], s_reported = [], s_stack = [], s_ran = [], s_hooks = []\<rparr>"




text \<open>The state of the loop of \<open>flushSchedulerQueue\<close> after \<open>k\<close> rounds, or where it
  stopped if it stopped earlier.\<close>

fun flush_steps ::
  "nat \<Rightarrow> ('u \<Rightarrow> val \<Rightarrow> nat list) \<Rightarrow> bool \<Rightarrow> 'u scheduler \<Rightarrow> 'u scheduler" where
  "flush_steps 0 trav hasPromise S = S"
| "flush_steps (Suc k) trav hasPromise S =
     (if index S < length (queue S) then
        (case flush_iteration trav hasPromise S of
           (Some e, S1) \<Rightarrow> S1
         | (None, S1) \<Rightarrow> flush_steps k trav hasPromise (S1\<lparr>index := index S1 + 1\<rparr>))
      else S)"

text \<open>
  A watcher whose every evaluation invalidates it again (its getter hands the watcher
  itself to \<open>queueWatcher\<close>), alone in the queue.
\<close>

definition loop_watcher :: "nat list watcher" where
  "loop_watcher =
     \<lparr>vm = 0, id = 1, deep = False, user = False, lazy = False, sync = False, active = True,
      dirty = False, deps = [], newDeps = [], depIds = {}, newDepIds = {}, before = None,
      getter = (\<lambda>u. \<lparr>touched = [], triggers = [1], after = u, result = Inr (VNum 0)\<rparr>),
      cb = (\<lambda>v old u. \<lparr>cb_triggers = [], cb_after = u, cb_thrown = None\<rparr>),
      value = VNum 0\<rparr>"

definition loop_sched :: "nat list scheduler" where
  "loop_sched = (sample_sched [1] False)\<lparr>watchers := (\<lambda>r. loop_watcher)\<rparr>"

definition looping :: "nat list scheduler \<Rightarrow> bool" where
  "looping S =
     (flushing S \<and> watchers S = (\<lambda>r. loop_watcher) \<and> index S < length (queue S)
      \<and> circular S = Map.empty \<and> s_reported S = [] \<and> length (s_ran S) = index S)"

section \<open>Observation (the observer module, src/unnamed/part_000)\<close>

subsection \<open>Objects, properties and wrappers\<close>

text \<open>
  A property key is a valid array index or any other name.  A property is a data
  property or an accessor pair (\<open>writable\<close> matters for a data property only).  The accessors that exist before a field is made
  reactive are user functions, which read and write the user state, or the reactive
  accessors of an earlier \<open>defineReactive\<close> on the same key.  A reactive accessor pair
  shares the variables of its closure: the subject \<open>dep\<close>, the cached \<open>val\<close>, the
  accessors found before (\<open>getter\<close> and \<open>setter\<close>), \<open>childOb\<close> and \<open>shallow\<close>.
  Subjects are referred to by their id, wrappers (instances of \<open>Observer\<close>) and
  objects by their position in the state.
\<close>

datatype pkey = Name string | Index nat

datatype 'u accessor =
    UserAccessor "('u \<Rightarrow> val) option" "(val \<Rightarrow> 'u \<Rightarrow> 'u) option"
  | ReactiveAccessor "'u closure"
and 'u closure =
    Closure (c_dep: nat) (c_val: val) (c_prior: "'u accessor option")
            (c_childOb: "nat option") (c_shallow: bool)

datatype 'u slot = Data val | Acc "'u accessor"

record 'u descriptor =
  configurable :: bool
  enumerable :: bool
  writable :: bool
  slot :: "'u slot"

text \<open>
  An object: what \<open>Array.isArray\<close>, \<open>isPlainObject\<close>, \<open>instanceof VNode\<close>,
  \<open>Object.isExtensible\<close> and \<open>_isVue\<close> say about it; its own \<open>__ob__\<close>, when that is an
  \<open>Observer\<close>; whether its seven mutating methods are intercepted; its own properties
  in creation order; its elements when it is an array (a hole reads as
  \<open>undefined\<close>); and the keys it inherits through its prototype chain.
\<close>

record 'u obj =
  isArray :: bool
  isPlain :: bool
  isVNode :: bool
  extensible :: bool
  isVue :: bool
  ob :: "nat option"
  patched :: bool
  props :: "(pkey \<times> 'u descriptor) list"
  elems :: "val list"
  inherited :: "pkey list"

record observer =
  ob_value :: nat
  ob_dep :: nat
  vmCount :: nat

text \<open>
  The state: the heap of objects, the wrappers, the counter that numbers the subjects
  (\<open>new Dep()\<close> takes the next number; \<open>Dep\<close> is in the missing \<open>./dep\<close>),
  \<open>shouldObserve\<close>, the subjects whose \<open>notify()\<close> was called (in order), and the user
  state.
\<close>

record 'u hstate =
  objs :: "'u obj list"
  observers :: "observer list"
  next_dep :: nat
  shouldObserve :: bool
  notified :: "nat list"
  h_user :: 'u

datatype patched_method = Push | Pop | Shift | Unshift | Splice | Sort | Reverse

text \<open>
  What the module takes from outside: \<open>isServerRendering()\<close>, the keys of
  \<open>Object.prototype\<close>, and the built-in array methods (\<open>arrayProto\<close> at the name of the operation), which
  act on the heap: given the operation, the array and the arguments they throw or
  return a result and the new heap.
\<close>

record 'u env =
  serverRendering :: bool
  objectPrototype :: "pkey list"
  original :: "patched_method \<Rightarrow> nat \<Rightarrow> val list \<Rightarrow> 'u obj list \<Rightarrow> exn + (val \<times> 'u obj list)"

text \<open>The outcome of a call: still running (out of fuel), an exception, or a result.\<close>

type_synonym 'a res = "(exn + 'a) option"

definition TypeError :: exn where
  "TypeError = Exn ''TypeError''"


definition toggleObserving :: "bool \<Rightarrow> 'u hstate \<Rightarrow> 'u hstate" where
  "toggleObserving b S = S\<lparr>shouldObserve := b\<rparr>"

text \<open>\<open>dep.notify()\<close>, recorded.\<close>

definition notify :: "nat \<Rightarrow> 'u hstate \<Rightarrow> 'u hstate" where
  "notify d S = S\<lparr>notified := notified S @ [d]\<rparr>"

text \<open>\<open>Object.defineProperty\<close> on the list of own properties: an existing key keeps
  its place, a new key goes to the end.\<close>

fun put_prop :: "pkey \<Rightarrow> 'u descriptor \<Rightarrow> (pkey \<times> 'u descriptor) list \<Rightarrow> (pkey \<times> 'u descriptor) list" where
  "put_prop k p [] = [(k, p)]"
| "put_prop k p ((k1, p1) # ps) = (if k1 = k then (k, p) # ps else (k1, p1) # put_prop k p ps)"

fun has_getter :: "'u accessor option \<Rightarrow> bool" where
  "has_getter None = False"
| "has_getter (Some (UserAccessor g s)) = (g \<noteq> None)"
| "has_getter (Some (ReactiveAccessor c)) = True"

fun has_setter :: "'u accessor option \<Rightarrow> bool" where
  "has_setter None = False"
| "has_setter (Some (UserAccessor g s)) = (s \<noteq> None)"
| "has_setter (Some (ReactiveAccessor c)) = True"

text \<open>
  The value a reactive getter returns: \<open>getter ? getter.call(obj) : val\<close>.  The
  subscriptions it records on the way belong to the active watcher, not to this
  state, and are left out.
\<close>

fun read_closure :: "'u \<Rightarrow> 'u closure \<Rightarrow> val" where
  "read_closure u (Closure d v None ch sh) = v"
| "read_closure u (Closure d v (Some (UserAccessor g s)) ch sh) =
     (case g of Some f \<Rightarrow> f u | None \<Rightarrow> v)"
| "read_closure u (Closure d v (Some (ReactiveAccessor c)) ch sh) = read_closure u c"

text \<open>\<open>obj[key]\<close> for an own property; a key that is not an own property reads as
  \<open>undefined\<close>.\<close>

definition read_prop :: "'u \<Rightarrow> 'u obj \<Rightarrow> pkey \<Rightarrow> val" where
  "read_prop u o1 k =
     (case map_of (props o1) k of
        None \<Rightarrow> VUndefined
      | Some p \<Rightarrow>
          (case slot p of
             Data v \<Rightarrow> v
           | Acc (UserAccessor g s) \<Rightarrow> (case g of Some f \<Rightarrow> f u | None \<Rightarrow> VUndefined)
           | Acc (ReactiveAccessor c) \<Rightarrow> read_closure u c))"

text \<open>\<open>newVal === value || (newVal !== newVal && value !== value)\<close>.\<close>

definition unchanged :: "val \<Rightarrow> val \<Rightarrow> bool" where
  "unchanged newVal v = (strict_eq newVal v \<or> (\<not> strict_eq newVal newVal \<and> \<not> strict_eq v v))"

subsection \<open>\<open>defineReactive\<close>, \<open>Observer\<close> and \<open>observe\<close>\<close>

text \<open>
  These functions call each other, and \<open>observe\<close> at the bottom of every cycle.  Each
  one is written over the \<open>observe\<close> it calls, \<open>obs\<close>; \<open>observe\<close> itself is then
  defined over fuel.

  \<open>defineReactive(obj, key, val, customSetter, shallow)\<close>.  \<open>given\<close> is the value
  argument, absent when the call has two arguments (\<open>arguments.length === 2\<close>);
  \<open>customSetter\<close> is not used by the function.  The last step is
  \<open>Object.defineProperty\<close>, which throws when the key is new and the object is not
  extensible.
\<close>

text \<open>\<open>property && property.get\<close> and \<open>property && property.set\<close>, as the pair they
  come from.\<close>

definition prior_accessor :: "'u descriptor option \<Rightarrow> 'u accessor option" where
  "prior_accessor property =
     (case property of
        Some p \<Rightarrow> (case slot p of Acc acc \<Rightarrow> Some acc | Data v \<Rightarrow> None)
      | None \<Rightarrow> None)"

text \<open>\<open>if ((!getter || setter) && arguments.length === 2) val = obj[key]\<close>.\<close>

definition initial_val :: "'u accessor option \<Rightarrow> val option \<Rightarrow> 'u \<Rightarrow> 'u obj \<Rightarrow> pkey \<Rightarrow> val" where
  "initial_val prior given u o1 k =
     (if (\<not> has_getter prior \<or> has_setter prior) \<and> given = None then read_prop u o1 k
      else (case given of Some x \<Rightarrow> x | None \<Rightarrow> VUndefined))"

text \<open>\<open>!shallow && observe(val)\<close>.\<close>

definition child_of ::
  "(val \<Rightarrow> bool \<Rightarrow> 'u hstate \<Rightarrow> (nat option \<times> 'u hstate) res) \<Rightarrow> bool \<Rightarrow> val \<Rightarrow> 'u hstate \<Rightarrow>
   (nat option \<times> 'u hstate) res" where
  "child_of obs shallow v S = (if shallow then Some (Inr (None, S)) else obs v False S)"

text \<open>\<open>Object.defineProperty(obj, key, {enumerable: true, configurable: true, get, set})\<close>
  with the accessors of the closure \<open>c\<close>.\<close>

definition install_reactive :: "nat \<Rightarrow> pkey \<Rightarrow> 'u closure \<Rightarrow> 'u hstate \<Rightarrow> 'u hstate res" where
  "install_reactive a k c S =
     (let o1 = objs S ! a in
      if map_of (props o1) k = None \<and> \<not> extensible o1 then Some (Inl TypeError)
      else Some (Inr (S\<lparr>objs := (objs S)
             [a := o1\<lparr>props := put_prop k
                     \<lparr>configurable = True, enumerable = True, writable = False,
                      slot = Acc (ReactiveAccessor c)\<rparr>
                     (props o1)\<rparr>]\<rparr>)))"

definition defineReactive_with ::
  "(val \<Rightarrow> bool \<Rightarrow> 'u hstate \<Rightarrow> (nat option \<times> 'u hstate) res) \<Rightarrow>
   nat \<Rightarrow> pkey \<Rightarrow> val option \<Rightarrow> bool \<Rightarrow> 'u hstate \<Rightarrow> 'u hstate res" where
  "defineReactive_with obs a k given shallow S =
     (let d = next_dep S;
          S0 = S\<lparr>next_dep := next_dep S + 1\<rparr>;
          property = map_of (props (objs S0 ! a)) k
      in if (case property of Some p \<Rightarrow> \<not> configurable p | None \<Rightarrow> False) then Some (Inr S0)
         else
           (let prior = prior_accessor property;
                v = initial_val prior given (h_user S0) (objs S0 ! a) k
            in case child_of obs shallow v S0 of
                 None \<Rightarrow> None
               | Some (Inl e) \<Rightarrow> Some (Inl e)
               | Some (Inr (childOb, S1)) \<Rightarrow>
                   install_reactive a k (Closure d v prior childOb shallow) S1))"

text \<open>\<open>walk\<close>: \<open>defineReactive(obj, keys[i])\<close> for the keys in turn.\<close>

fun walk_with ::
  "(val \<Rightarrow> bool \<Rightarrow> 'u hstate \<Rightarrow> (nat option \<times> 'u hstate) res) \<Rightarrow>
   nat \<Rightarrow> pkey list \<Rightarrow> 'u hstate \<Rightarrow> 'u hstate res" where
  "walk_with obs a [] S = Some (Inr S)"
| "walk_with obs a (k # ks) S =
     (case defineReactive_with obs a k None False S of
        None \<Rightarrow> None
      | Some (Inl e) \<Rightarrow> Some (Inl e)
      | Some (Inr S1) \<Rightarrow> walk_with obs a ks S1)"

text \<open>\<open>observeArray\<close>: \<open>observe(items[i])\<close> for the items in turn.\<close>

fun observeArray_with ::
  "(val \<Rightarrow> bool \<Rightarrow> 'u hstate \<Rightarrow> (nat option \<times> 'u hstate) res) \<Rightarrow>
   val list \<Rightarrow> 'u hstate \<Rightarrow> 'u hstate res" where
  "observeArray_with obs [] S = Some (Inr S)"
| "observeArray_with obs (v # vs) S =
     (case obs v False S of
        None \<Rightarrow> None
      | Some (Inl e) \<Rightarrow> Some (Inl e)
      | Some (Inr (r, S1)) \<Rightarrow> observeArray_with obs vs S1)"

text \<open>\<open>Object.keys(obj)\<close>: the enumerable own keys, in order.\<close>

definition own_keys :: "'u obj \<Rightarrow> pkey list" where
  "own_keys o1 = map fst (filter (\<lambda>kp. enumerable (snd kp)) (props o1))"

text \<open>
  \<open>new Observer(value)\<close>.  \<open>attach\<close> is the head of the constructor: the new
  wrapper with its subject and \<open>def(value, '__ob__', this)\<close>, which throws on an
  object that is not extensible.  \<open>augment\<close> stands for \<open>protoAugment\<close> and
  \<open>copyAugment\<close>: both leave the array with the intercepted methods.  The result is
  the reference to the new wrapper.
\<close>

definition attach :: "nat \<Rightarrow> 'u hstate \<Rightarrow> 'u hstate" where
  "attach a S =
     S\<lparr>observers := observers S @ [\<lparr>ob_value = a, ob_dep = next_dep S, vmCount = 0\<rparr>],
       next_dep := next_dep S + 1,
       objs := (objs S)[a := (objs S ! a)\<lparr>ob := Some (length (observers S))\<rparr>]\<rparr>"

definition augment :: "nat \<Rightarrow> 'u hstate \<Rightarrow> 'u hstate" where
  "augment a S = S\<lparr>objs := (objs S)[a := (objs S ! a)\<lparr>patched := True\<rparr>]\<rparr>"

definition new_Observer_with ::
  "(val \<Rightarrow> bool \<Rightarrow> 'u hstate \<Rightarrow> (nat option \<times> 'u hstate) res) \<Rightarrow>
   nat \<Rightarrow> 'u hstate \<Rightarrow> (nat \<times> 'u hstate) res" where
  "new_Observer_with obs a S =
     (let b = length (observers S);
          o1 = objs S ! a
      in if \<not> extensible o1 then Some (Inl TypeError)
         else
           (case (if isArray o1
                  then observeArray_with obs (elems o1) (augment a (attach a S))
                  else walk_with obs a (own_keys o1) (attach a S)) of
              None \<Rightarrow> None
            | Some (Inl e) \<Rightarrow> Some (Inl e)
            | Some (Inr S2) \<Rightarrow> Some (Inr (b, S2))))"

text \<open>
  \<open>observe(value, asRootData)\<close>, in its three steps: the two early returns,
  \<open>wrapper_of\<close> (the existing wrapper, or a new one when \<open>can_observe\<close> holds, or
  none) and \<open>count_root\<close> (\<open>if (asRootData && ob) ob.vmCount++\<close>).  A reference that
  points outside the heap is treated like a value that is not an object.
\<close>

definition can_observe :: "'u env \<Rightarrow> 'u hstate \<Rightarrow> 'u obj \<Rightarrow> bool" where
  "can_observe E S o1 =
     (shouldObserve S \<and> \<not> serverRendering E \<and> (isArray o1 \<or> isPlain o1)
      \<and> extensible o1 \<and> \<not> isVue o1)"

definition wrapper_of ::
  "(val \<Rightarrow> bool \<Rightarrow> 'u hstate \<Rightarrow> (nat option \<times> 'u hstate) res) \<Rightarrow> 'u env \<Rightarrow>
   nat \<Rightarrow> 'u hstate \<Rightarrow> (nat option \<times> 'u hstate) res" where
  "wrapper_of obs E a S =
     (case ob (objs S ! a) of
        Some b \<Rightarrow> Some (Inr (Some b, S))
      | None \<Rightarrow>
          if can_observe E S (objs S ! a)
          then (case new_Observer_with obs a S of
                  None \<Rightarrow> None
                | Some (Inl e) \<Rightarrow> Some (Inl e)
                | Some (Inr (b, S1)) \<Rightarrow> Some (Inr (Some b, S1)))
          else Some (Inr (None, S)))"

definition count_root :: "bool \<Rightarrow> nat option \<Rightarrow> 'u hstate \<Rightarrow> 'u hstate" where
  "count_root asRootData x S =
     (case x of
        Some b \<Rightarrow>
          if asRootData then
            S\<lparr>observers := (observers S)
                [b := (observers S ! b)\<lparr>vmCount := vmCount (observers S ! b) + 1\<rparr>]\<rparr>
          else S
      | None \<Rightarrow> S)"

definition observe_with ::
  "(val \<Rightarrow> bool \<Rightarrow> 'u hstate \<Rightarrow> (nat option \<times> 'u hstate) res) \<Rightarrow> 'u env \<Rightarrow>
   val \<Rightarrow> bool \<Rightarrow> 'u hstate \<Rightarrow> (nat option \<times> 'u hstate) res" where
  "observe_with obs E v asRootData S =
     (case v of
        VRef a \<Rightarrow>
          if a < length (objs S) \<and> \<not> isVNode (objs S ! a) then
            (case wrapper_of obs E a S of
               None \<Rightarrow> None
             | Some (Inl e) \<Rightarrow> Some (Inl e)
             | Some (Inr (x, S1)) \<Rightarrow> Some (Inr (x, count_root asRootData x S1)))
          else Some (Inr (None, S))
      | _ \<Rightarrow> Some (Inr (None, S)))"

primrec observe ::
  "nat \<Rightarrow> 'u env \<Rightarrow> val \<Rightarrow> bool \<Rightarrow> 'u hstate \<Rightarrow> (nat option \<times> 'u hstate) res" where
  "observe 0 E = (\<lambda>v asRootData S. None)"
| "observe (Suc n) E = observe_with (observe n E) E"

definition defineReactive ::
  "nat \<Rightarrow> 'u env \<Rightarrow> nat \<Rightarrow> pkey \<Rightarrow> val option \<Rightarrow> bool \<Rightarrow> 'u hstate \<Rightarrow> 'u hstate res" where
  "defineReactive n E = defineReactive_with (observe n E)"

subsection \<open>The intercepted write\<close>

text \<open>
  \<open>reactiveSetter(newVal)\<close>, on the variables of its closure; the result carries the
  closure as the call leaves it.  When the setter found before is itself a reactive
  setter, \<open>setter.call(obj, newVal)\<close> is a call of this function on the inner
  closure.
\<close>

fun reactiveSetter_with ::
  "(val \<Rightarrow> bool \<Rightarrow> 'u hstate \<Rightarrow> (nat option \<times> 'u hstate) res) \<Rightarrow>
   'u closure \<Rightarrow> val \<Rightarrow> 'u hstate \<Rightarrow> ('u closure \<times> 'u hstate) res" where
  "reactiveSetter_with obs (Closure d v prior ch sh) newVal S =
     (let cur = read_closure (h_user S) (Closure d v prior ch sh) in
      if unchanged newVal cur then Some (Inr (Closure d v prior ch sh, S))
      else if has_getter prior \<and> \<not> has_setter prior then Some (Inr (Closure d v prior ch sh, S))
      else
        (case (case prior of
                 Some (UserAccessor g (Some s)) \<Rightarrow>
                   Some (Inr (v, prior, S\<lparr>h_user := s newVal (h_user S)\<rparr>))
               | Some (ReactiveAccessor c) \<Rightarrow>
                   (case reactiveSetter_with obs c newVal S of
                      None \<Rightarrow> None
                    | Some (Inl e) \<Rightarrow> Some (Inl e)
                    | Some (Inr (c1, S1)) \<Rightarrow> Some (Inr (v, Some (ReactiveAccessor c1), S1)))
               | _ \<Rightarrow> Some (Inr (newVal, prior, S))) of
           None \<Rightarrow> None
         | Some (Inl e) \<Rightarrow> Some (Inl e)
         | Some (Inr (v1, prior1, S1)) \<Rightarrow>
             (case child_of obs sh newVal S1 of
                None \<Rightarrow> None
              | Some (Inl e) \<Rightarrow> Some (Inl e)
              | Some (Inr (ch1, S2)) \<Rightarrow>
                  Some (Inr (Closure d v1 prior1 ch1 sh, notify d S2)))))"

definition reactiveSetter ::
  "nat \<Rightarrow> 'u env \<Rightarrow> 'u closure \<Rightarrow> val \<Rightarrow> 'u hstate \<Rightarrow> ('u closure \<times> 'u hstate) res" where
  "reactiveSetter n E = reactiveSetter_with (observe n E)"

text \<open>
  A field is a getter-only accessor when a getter was found before and no setter.
\<close>

definition getter_only :: "'u closure \<Rightarrow> bool" where
  "getter_only c = (has_getter (c_prior c) \<and> \<not> has_setter (c_prior c))"

subsection \<open>What observation leaves alone\<close>

text \<open>
  \<open>unobserved\<close> counts the objects without a wrapper; it bounds the fuel \<open>observe\<close>
  needs.  \<open>evolves S S1\<close> collects what no amount of observing changes between a
  state and a later one: the heap keeps its size, no \<open>notify()\<close> is called,
  \<open>shouldObserve\<close> and the user state stay, wrappers are only added and keep their
  object and subject, and every object keeps its kind, its elements, its wrapper once
  it has one, and its own keys.
\<close>

definition unobserved :: "'u hstate \<Rightarrow> nat" where
  "unobserved S = length (filter (\<lambda>o1. ob o1 = None) (objs S))"

definition same_kind :: "'u obj \<Rightarrow> 'u obj \<Rightarrow> bool" where
  "same_kind o1 o2 =
     (isArray o2 = isArray o1 \<and> isPlain o2 = isPlain o1 \<and> isVNode o2 = isVNode o1
      \<and> extensible o2 = extensible o1 \<and> isVue o2 = isVue o1 \<and> elems o2 = elems o1
      \<and> inherited o2 = inherited o1
      \<and> (ob o1 \<noteq> None \<longrightarrow> ob o2 = ob o1)
      \<and> fst ` set (props o1) \<subseteq> fst ` set (props o2))"

definition evolves :: "'u hstate \<Rightarrow> 'u hstate \<Rightarrow> bool" where
  "evolves S S1 =
     (length (objs S1) = length (objs S) \<and> notified S1 = notified S
      \<and> shouldObserve S1 = shouldObserve S \<and> h_user S1 = h_user S
      \<and> length (observers S) \<le> length (observers S1)
      \<and> (\<forall>b < length (observers S).
            ob_dep (observers S1 ! b) = ob_dep (observers S ! b)
            \<and> ob_value (observers S1 ! b) = ob_value (observers S ! b))
      \<and> (\<forall>a < length (objs S). same_kind (objs S ! a) (objs S1 ! a)))"

text \<open>An \<open>observe\<close> that, when it returns, returns normally and in an evolved state;
  and one that returns whenever fewer than \<open>n\<close> objects are without a wrapper.\<close>

definition sound :: "(val \<Rightarrow> bool \<Rightarrow> 'u hstate \<Rightarrow> (nat option \<times> 'u hstate) res) \<Rightarrow> bool" where
  "sound obs = (\<forall>v r S res. obs v r S = Some res \<longrightarrow> (\<exists>x S1. res = Inr (x, S1) \<and> evolves S S1))"

definition total_upto ::
  "nat \<Rightarrow> (val \<Rightarrow> bool \<Rightarrow> 'u hstate \<Rightarrow> (nat option \<times> 'u hstate) res) \<Rightarrow> bool" where
  "total_upto n obs = (\<forall>v r S. unobserved S < n \<longrightarrow> obs v r S \<noteq> None)"

subsection \<open>Examples\<close>

definition data_prop :: "val \<Rightarrow> 'u descriptor" where
  "data_prop v = \<lparr>configurable = True, enumerable = True, writable = True, slot = Data v\<rparr>"

definition plain_object :: "(pkey \<times> 'u descriptor) list \<Rightarrow> 'u obj" where
  "plain_object ps =
     \<lparr>isArray = False, isPlain = True, isVNode = False, extensible = True, isVue = False,
      ob = None, patched = False, props = ps, elems = [], inherited = []\<rparr>"

definition array_object :: "val list \<Rightarrow> 'u obj" where
  "array_object vs =
     \<lparr>isArray = True, isPlain = False, isVNode = False, extensible = True, isVue = False,
      ob = None, patched = False, props = [], elems = vs, inherited = []\<rparr>"

text \<open>
  The built-in array methods on the argument shapes the examples use: any arguments
  for \<open>push\<close>, \<open>unshift\<close>, \<open>pop\<close>, \<open>shift\<close> and \<open>reverse\<close>; \<open>splice(start,
  deleteCount, ...items)\<close> with two numbers that are not negative and a start inside
  the array; \<open>sort\<close> is
  left out.  \<open>splice\<close> returns a new array holding what it removed.  Any other call
  is answered with an exception.
\<close>

definition simple_original ::
  "patched_method \<Rightarrow> nat \<Rightarrow> val list \<Rightarrow> 'u obj list \<Rightarrow> exn + (val \<times> 'u obj list)" where
  "simple_original m a args H =
     (let es = elems (H ! a) in
      case m of
        Push \<Rightarrow> Inr (VNum (int (length es + length args)), H[a := (H ! a)\<lparr>elems := es @ args\<rparr>])
      | Unshift \<Rightarrow> Inr (VNum (int (length es + length args)), H[a := (H ! a)\<lparr>elems := args @ es\<rparr>])
      | Pop \<Rightarrow> (if es = [] then Inr (VUndefined, H)
                else Inr (last es, H[a := (H ! a)\<lparr>elems := butlast es\<rparr>]))
      | Shift \<Rightarrow> (if es = [] then Inr (VUndefined, H)
                  else Inr (hd es, H[a := (H ! a)\<lparr>elems := tl es\<rparr>]))
      | Reverse \<Rightarrow> Inr (VRef a, H[a := (H ! a)\<lparr>elems := rev es\<rparr>])
      | Splice \<Rightarrow>
          (case args of
             VNum s # VNum c # items \<Rightarrow>
               if 0 \<le> s \<and> 0 \<le> c \<and> nat s \<le> length es then
                 Inr (VRef (length H),
                      H[a := (H ! a)\<lparr>elems := take (nat s) es @ items @ drop (nat s + nat c) es\<rparr>]
                      @ [array_object (take (nat c) (drop (nat s) es))])
               else Inl (Exn ''unsupported'')
           | _ \<Rightarrow> Inl (Exn ''unsupported''))
      | Sort \<Rightarrow> Inl (Exn ''unsupported''))"

definition sample_env :: "unit env" where
  "sample_env =
     \<lparr>serverRendering = False,
      objectPrototype = [Name ''constructor'', Name ''toString'', Name ''valueOf'',
                         Name ''hasOwnProperty'', Name ''isPrototypeOf'',
                         Name ''propertyIsEnumerable'', Name ''toLocaleString''],
      original = simple_original\<rparr>"

text \<open>
  A heap: object 0 is \<open>{a: 1, child: <object 1>}\<close>, object 1 is \<open>{b: NaN}\<close>, object 2
  is the array \<open>[<object 3>, 5]\<close>, object 3 is \<open>{}\<close>, object 4 is a frozen \<open>{c: 2}\<close>,
  object 5 is a VNode.  Nothing is observed yet.
\<close>

definition sample_heap :: "unit hstate" where
  "sample_heap =
     \<lparr>objs = [plain_object [(Name ''a'', data_prop (VNum 1)), (Name ''child'', data_prop (VRef 1))],
              plain_object [(Name ''b'', data_prop VNaN)],
              array_object [VRef 3, VNum 5],
              plain_object [],
              (plain_object [(Name ''c'', \<lparr>configurable = False, enumerable = True,
                                         writable = False, slot = Data (VNum 2)\<rparr>)])
                \<lparr>extensible := False\<rparr>,
              (plain_object [])\<lparr>isPlain := False, isVNode := True\<rparr>],
      observers = [], next_dep = 0, shouldObserve = True, notified = [], h_user = ()\<rparr>"

text \<open>A heap whose only object, \<open>{}\<close>, carries a wrapper, with observation switched
  off.\<close>

definition disabled_heap :: "unit hstate" where
  "disabled_heap =
     \<lparr>objs = [(plain_object [])\<lparr>ob := Some 0\<rparr>],
      observers = [\<lparr>ob_value = 0, ob_dep = 0, vmCount = 0\<rparr>],
      next_dep = 1, shouldObserve = False, notified = [], h_user = ()\<rparr>"

text \<open>The sample heap after \<open>observe\<close> of object 3.\<close>

definition observed_heap :: "unit hstate" where
  "observed_heap =
     (case observe 5 sample_env (VRef 3) False sample_heap of
        Some (Inr (x, S)) \<Rightarrow> S
      | _ \<Rightarrow> sample_heap)"

text \<open>The subjects of the closures nested inside a closure (those of the reactive
  accessors it found when it was created).\<close>

fun inner_deps :: "'u closure \<Rightarrow> nat list" where
  "inner_deps (Closure d v (Some (ReactiveAccessor c)) ch sh) = c_dep c # inner_deps c"
| "inner_deps (Closure d v prior ch sh) = []"

text \<open>Two closures: a plain field holding \<open>NaN\<close> with subject 4, and a field over a
  getter without a setter, with subject 9.\<close>

definition nan_field :: "unit closure" where
  "nan_field = Closure 4 VNaN None None False"

definition getter_only_field :: "unit closure" where
  "getter_only_field = Closure 9 VUndefined (Some (UserAccessor (Some (\<lambda>u. VNum 7)) None)) None False"

subsection \<open>The intercepted array methods (first part of src/core/observer/array.js)\<close>

text \<open>The \<open>switch\<close> of \<open>mutator\<close>: what was inserted, if the operation inserts.\<close>

fun inserted :: "patched_method \<Rightarrow> val list \<Rightarrow> val list option" where
  "inserted Push args = Some args"
| "inserted Unshift args = Some args"
| "inserted Splice args = Some (drop 2 args)"
| "inserted m args = None"

text \<open>
  \<open>mutator(...args)\<close> for the operation \<open>m\<close> on the array \<open>a\<close>: the built-in runs
  first; \<open>this.__ob__\<close> is read after it, and using it throws when the array has no
  wrapper.
\<close>

definition mutator_with ::
  "(val \<Rightarrow> bool \<Rightarrow> 'u hstate \<Rightarrow> (nat option \<times> 'u hstate) res) \<Rightarrow> 'u env \<Rightarrow>
   patched_method \<Rightarrow> nat \<Rightarrow> val list \<Rightarrow> 'u hstate \<Rightarrow> (val \<times> 'u hstate) res" where
  "mutator_with obs E m a args S =
     (case original E m a args (objs S) of
        Inl e \<Rightarrow> Some (Inl e)
      | Inr (ret, H) \<Rightarrow>
          (let S1 = S\<lparr>objs := H\<rparr> in
           case ob (objs S1 ! a) of
             None \<Rightarrow> Some (Inl TypeError)
           | Some b \<Rightarrow>
               (case (case inserted m args of
                        Some vs \<Rightarrow> observeArray_with obs vs S1
                      | None \<Rightarrow> Some (Inr S1)) of
                  None \<Rightarrow> None
                | Some (Inl e) \<Rightarrow> Some (Inl e)
                | Some (Inr S2) \<Rightarrow> Some (Inr (ret, notify (ob_dep (observers S2 ! b)) S2)))))"

definition mutator ::
  "nat \<Rightarrow> 'u env \<Rightarrow> patched_method \<Rightarrow> nat \<Rightarrow> val list \<Rightarrow> 'u hstate \<Rightarrow> (val \<times> 'u hstate) res" where
  "mutator n E = mutator_with (observe n E) E"

text \<open>The values \<open>mutator\<close> hands to \<open>observeArray\<close>, none when it skips the call; and
  whether a value carries a wrapper in a state.\<close>

definition inserted_values :: "patched_method \<Rightarrow> val list \<Rightarrow> val list" where
  "inserted_values m args = (case inserted m args of Some vs \<Rightarrow> vs | None \<Rightarrow> [])"

definition wrapped :: "'u hstate \<Rightarrow> val \<Rightarrow> bool" where
  "wrapped S v = (case v of VRef x \<Rightarrow> x < length (objs S) \<and> ob (objs S ! x) \<noteq> None | _ \<Rightarrow> False)"

text \<open>A value \<open>observe\<close> gives a wrapper to: an object of the heap that is not a VNode
  and has a wrapper or can get one.\<close>

definition observable :: "'u env \<Rightarrow> 'u hstate \<Rightarrow> val \<Rightarrow> bool" where
  "observable E S v =
     (case v of
        VRef x \<Rightarrow> x < length (objs S) \<and> \<not> isVNode (objs S ! x)
                   \<and> (ob (objs S ! x) \<noteq> None \<or> can_observe E S (objs S ! x))
      | _ \<Rightarrow> False)"

text \<open>The sample heap after \<open>observe\<close> of the array (object 2), and what the built-in
  \<open>push\<close> of object 0 and the number 9 onto that array returns.\<close>

definition array_heap :: "unit hstate" where
  "array_heap =
     (case observe 5 sample_env (VRef 2) False sample_heap of
        Some (Inr (x, S)) \<Rightarrow> S
      | _ \<Rightarrow> sample_heap)"

definition pushed :: "val \<times> unit obj list" where
  "pushed =
     (case simple_original Push 2 [VRef 0, VNum 9] (objs array_heap) of
        Inr p \<Rightarrow> p
      | Inl e \<Rightarrow> (VUndefined, []))"

subsection \<open>\<open>set\<close>\<close>














section \<open>Verified properties\<close>

subsection \<open>Dependency reconciliation\<close>













subsection \<open>A path the constructor cannot parse\<close>

lemma addDep_getter: "getter (fst (addDep wl d)) = getter (fst wl)"
  by (simp add: addDep_def Let_def)

lemma depend_all_getter: "getter (fst (depend_all wl ds)) = getter (fst wl)"
  by (induction ds arbitrary: wl) (simp_all add: addDep_getter)

lemma get_getter: "getter (g_watcher (get trav w u st)) = getter w"
  by (simp add: get_def Let_def cleanupDeps_def depend_all_getter)

lemma get_noop: "getter w = noop \<Longrightarrow> g_result (get trav w u st) = Inr VUndefined"
  by (simp add: get_def Let_def noop_def)

text \<open>
  C10.  When \<open>parsePath\<close> yields nothing for the string, the constructor does not
  throw, installs \<open>noop\<close> as the getter, warns exactly in development mode, and leaves
  \<open>undefined\<close> as the value; any evaluation of a watcher whose getter is \<open>noop\<close>
  returns \<open>undefined\<close> and keeps that getter, so every later evaluation does too.
\<close>

theorem unparsable_path_yields_undefined:
  assumes "parsePath p = None"
  shows "n_thrown (new_Watcher parsePath production trav uid vmr vm0 (Path p) cb0 opts isRender u st) = None
       \<and> value (n_watcher (new_Watcher parsePath production trav uid vmr vm0 (Path p) cb0 opts isRender u st)) = VUndefined
       \<and> getter (n_watcher (new_Watcher parsePath production trav uid vmr vm0 (Path p) cb0 opts isRender u st)) = noop
       \<and> n_warned (new_Watcher parsePath production trav uid vmr vm0 (Path p) cb0 opts isRender u st) =
           (if production then [] else [FailedWatchingPath p])
       \<and> (\<forall>w u' st'. getter w = noop \<longrightarrow>
             g_result (get trav w u' st') = Inr VUndefined \<and> getter (g_watcher (get trav w u' st')) = noop)"
  using assms
  by (simp add: new_Watcher_def Let_def get_noop get_getter)

theorem unparsable_path_yields_undefined_witness:
  "(\<lambda>s. None :: (unit \<Rightarrow> unit evaluation) option) ''a[0]'' = None
   \<and> n_thrown (new_Watcher (\<lambda>s. None) False (\<lambda>u v. []) 0 0
        \<lparr>vm_watcher = None, vm_watchers = [], isMounted = False, isDestroyed = False\<rparr>
        (Path ''a[0]'') (cb example_watcher) None False () []) = None
   \<and> value (n_watcher (new_Watcher (\<lambda>s. None) False (\<lambda>u v. []) 0 0
        \<lparr>vm_watcher = None, vm_watchers = [], isMounted = False, isDestroyed = False\<rparr>
        (Path ''a[0]'') (cb example_watcher) None False () [])) = VUndefined
   \<and> n_warned (new_Watcher (\<lambda>s. None) False (\<lambda>u v. []) 0 0
        \<lparr>vm_watcher = None, vm_watchers = [], isMounted = False, isDestroyed = False\<rparr>
        (Path ''a[0]'') (cb example_watcher) None False () []) = [FailedWatchingPath ''a[0]'']"
  using unparsable_path_yields_undefined [of "\<lambda>s. None" "''a[0]''" False "\<lambda>u v. []" 0 0
      "\<lparr>vm_watcher = None, vm_watchers = [], isMounted = False, isDestroyed = False\<rparr>" "cb example_watcher" None False "()" "[]"]
  by simp

subsection \<open>Flushing the deferred callbacks\<close>

lemma register_all_state:
  "callbacks (register_all hp cs ts) = callbacks ts @ map (entry_of hp) cs
   \<and> pending (register_all hp cs ts) = (pending ts \<or> cs \<noteq> [])
   \<and> timer_calls (register_all hp cs ts) = timer_calls ts + (if \<not> pending ts \<and> cs \<noteq> [] then 1 else 0)"
  by (induction cs arbitrary: ts) (auto simp add: nextTick_def Let_def entry_of_def)

lemma run_copies_state:
  "f_ran (run_copies beh hp es acc) = f_ran acc @ es
   \<and> callbacks (f_state (run_copies beh hp es acc)) =
       callbacks (f_state acc) @ map (entry_of hp) (registered_during beh es (f_user acc))
   \<and> pending (f_state (run_copies beh hp es acc)) =
       (pending (f_state acc) \<or> registered_during beh es (f_user acc) \<noteq> [])
   \<and> timer_calls (f_state (run_copies beh hp es acc)) =
       timer_calls (f_state acc) +
       (if \<not> pending (f_state acc) \<and> registered_during beh es (f_user acc) \<noteq> [] then 1 else 0)
   \<and> f_handled (run_copies beh hp es acc) =
       f_handled acc @ map (\<lambda>x. (x, NextTick)) (thrown_during beh es (f_user acc))"
proof (induction es arbitrary: acc)
  case Nil
  then show ?case by simp
next
  case (Cons e es)
  show ?case
  proof (cases e)
    case (WithCb f)
    then show ?thesis
      using Cons.IH[of "call_entry beh hp e acc"]
      by (auto simp add: call_entry_def Let_def register_all_state split: option.splits)
  next
    case (NoCb b)
    then show ?thesis
      using Cons.IH[of "call_entry beh hp e acc"]
      by (simp add: call_entry_def)
  qed
qed

text \<open>
  C9.  A flush of the callback list calls exactly the entries that were pending when it
  started, in registration order, whatever any of them throws; each thrown error goes
  to the error handler with context \<open>nextTick\<close>; what the callbacks register while
  they run is not called but makes up the new pending list, and the first such
  registration requests the next flush (one call of \<open>timerFunc\<close>).
\<close>

theorem flushCallbacks_runs_snapshot:
  "f_ran (flushCallbacks beh hp ts u) = callbacks ts
   \<and> callbacks (f_state (flushCallbacks beh hp ts u)) =
       map (entry_of hp) (registered_during beh (callbacks ts) u)
   \<and> pending (f_state (flushCallbacks beh hp ts u)) = (registered_during beh (callbacks ts) u \<noteq> [])
   \<and> timer_calls (f_state (flushCallbacks beh hp ts u)) =
       timer_calls ts + (if registered_during beh (callbacks ts) u \<noteq> [] then 1 else 0)
   \<and> f_handled (flushCallbacks beh hp ts u) =
       map (\<lambda>x. (x, NextTick)) (thrown_during beh (callbacks ts) u)"
  using run_copies_state[of beh hp "callbacks ts"
      "\<lparr>f_state = ts\<lparr>pending := False, callbacks := []\<rparr>, f_user = u, f_ran = [], f_handled = [], f_resolved = 0\<rparr>"]
  by (simp add: flushCallbacks_def Let_def)

theorem flushCallbacks_runs_snapshot_witness:
  "f_ran (flushCallbacks example_beh True example_ticks []) =
     [WithCb (UserFn 1), WithCb (UserFn 2), WithCb (UserFn 4)]
   \<and> f_user (flushCallbacks example_beh True example_ticks []) = [1, 2, 4]
   \<and> callbacks (f_state (flushCallbacks example_beh True example_ticks [])) = [WithCb (UserFn 3)]
   \<and> pending (f_state (flushCallbacks example_beh True example_ticks []))
   \<and> timer_calls (f_state (flushCallbacks example_beh True example_ticks [])) = 2
   \<and> f_handled (flushCallbacks example_beh True example_ticks []) = [(Exn ''boom'', NextTick)]"
proof -
  have u: "f_user (flushCallbacks example_beh True example_ticks []) = [1, 2, 4]"
    by (simp add: flushCallbacks_def example_ticks_def example_beh_def call_entry_def Let_def)
  have c: "callbacks example_ticks = [WithCb (UserFn 1), WithCb (UserFn 2), WithCb (UserFn 4)]"
    "timer_calls example_ticks = 1"
    by (simp_all add: example_ticks_def)
  have r: "registered_during example_beh [WithCb (UserFn 1), WithCb (UserFn 2), WithCb (UserFn 4)] []
             = [Some (UserFn 3)]"
    by (simp add: example_beh_def)
  have t: "thrown_during example_beh [WithCb (UserFn 1), WithCb (UserFn 2), WithCb (UserFn 4)] []
             = [Exn ''boom'']"
    by (simp add: example_beh_def)
  from flushCallbacks_runs_snapshot [of example_beh True example_ticks "[]"] u
  show ?thesis unfolding c r t by (simp add: entry_of_def)
qed

subsection \<open>The scheduler queue\<close>

lemma scan_props:
  "int idx \<le> i \<Longrightarrow> i < int (length ids) \<Longrightarrow>
   int idx \<le> scan ids idx w i \<and> scan ids idx w i \<le> i
   \<and> (\<forall>j. scan ids idx w i < j \<and> j \<le> i \<longrightarrow> ids ! nat j > w)
   \<and> (int idx < scan ids idx w i \<longrightarrow> ids ! nat (scan ids idx w i) \<le> w)"
proof (induction ids idx w i rule: scan.induct)
  case (1 ids idx w i)
  show ?case
  proof (cases "i > int idx \<and> ids ! nat i > w")
    case True
    then have s: "scan ids idx w i = scan ids idx w (i - 1)"
      by (subst scan.simps) simp
    from True "1.prems" have p: "int idx \<le> i - 1" "i - 1 < int (length ids)" by simp_all
    note ih = "1.IH"[OF True p]
    have "\<forall>j. scan ids idx w (i - 1) < j \<and> j \<le> i \<longrightarrow> ids ! nat j > w"
    proof (intro allI impI)
      fix j assume a: "scan ids idx w (i - 1) < j \<and> j \<le> i"
      show "ids ! nat j > w"
      proof (cases "j = i")
        case True
        with \<open>i > int idx \<and> ids ! nat i > w\<close> show ?thesis by simp
      next
        case False
        with a have "j \<le> i - 1" by simp
        with a ih show ?thesis by blast
      qed
    qed
    with ih show ?thesis unfolding s by simp
  next
    case False
    then have s: "scan ids idx w i = i"
      by (subst scan.simps) auto
    from False "1.prems" show ?thesis unfolding s by auto
  qed
qed


lemma queueWatcher_marked:
  "\<not> is_null (has S (wid S r)) \<Longrightarrow> queueWatcher hp r S = S"
  by (simp add: queueWatcher_def Let_def)



lemma wid_has_upd [simp]: "wid (S\<lparr>has := h\<rparr>) = wid S"
  by (simp add: wid_def fun_eq_iff)

lemma queueWatcher_flushing_queue:
  assumes "flushing S" "is_null (has S (wid S r))" "index S < length (queue S)"
  shows "\<exists>p. index S < p \<and> p \<le> length (queue S)
           \<and> queue (queueWatcher hp r S) = take p (queue S) @ [r] @ drop p (queue S)
           \<and> (\<forall>j. p \<le> j \<and> j < length (queue S) \<longrightarrow> wid S r < wid S (queue S ! j))
           \<and> (index S + 1 < p \<longrightarrow> wid S (queue S ! (p - 1)) \<le> wid S r)"
proof -
  let ?ids = "map (wid S) (queue S)"
  let ?k = "scan ?ids (index S) (wid S r) (int (length (queue S)) - 1)"
  from assms have a: "int (index S) \<le> int (length (queue S)) - 1"
    "int (length (queue S)) - 1 < int (length ?ids)" by simp_all
  note sp = scan_props[OF a, of "wid S r"]
  let ?p = "nat (?k + 1)"
  have q: "queue (queueWatcher hp r S) = take ?p (queue S) @ [r] @ drop ?p (queue S)"
    using assms by (simp add: queueWatcher_def Let_def)
  have p1: "index S < ?p" using sp by linarith
  have p2: "?p \<le> length (queue S)" using sp by linarith
  have p3: "\<forall>j. ?p \<le> j \<and> j < length (queue S) \<longrightarrow> wid S r < wid S (queue S ! j)"
  proof (intro allI impI)
    fix j assume j: "?p \<le> j \<and> j < length (queue S)"
    then have "?k < int j \<and> int j \<le> int (length (queue S)) - 1" by linarith
    with sp have "wid S r < ?ids ! nat (int j)" by blast
    with j show "wid S r < wid S (queue S ! j)" by simp
  qed
  have p4: "index S + 1 < ?p \<longrightarrow> wid S (queue S ! (?p - 1)) \<le> wid S r"
  proof
    assume b: "index S + 1 < ?p"
    then have "int (index S) < ?k" by linarith
    with sp have c: "?ids ! nat ?k \<le> wid S r" by blast
    have d: "nat ?k = ?p - 1" using sp by linarith
    have "nat ?k < length (queue S)" using sp by linarith
    with c d show "wid S (queue S ! (?p - 1)) \<le> wid S r" by simp
  qed
  from q p1 p2 p3 p4 show ?thesis by blast
qed


lemma queueWatcher_fields:
  "flushing (queueWatcher hp r S) = flushing S"
  "index (queueWatcher hp r S) = index S"
  "watchers (queueWatcher hp r S) = watchers S"
  "s_ran (queueWatcher hp r S) = s_ran S"
  "s_user (queueWatcher hp r S) = s_user S"
  "s_stack (queueWatcher hp r S) = s_stack S"
  "circular (queueWatcher hp r S) = circular S"
  by (simp_all add: queueWatcher_def Let_def)




lemma drop_insert_past:
  "i < p \<Longrightarrow> p \<le> length q \<Longrightarrow>
   drop (Suc i) (take p q @ [r] @ drop p q) = take (p - Suc i) (drop (Suc i) q) @ [r] @ drop p q"
  by (simp add: drop_take)

lemma take_insert_past:
  "i < p \<Longrightarrow> p \<le> length q \<Longrightarrow> take (Suc i) (take p q @ [r] @ drop p q) = take (Suc i) q"
  by (simp add: min_def)




lemma queueWatcher_prefix:
  assumes "flushing S" "index S < length (queue S)"
  shows "take (Suc (index S)) (queue (queueWatcher hp r S)) = take (Suc (index S)) (queue S)
       \<and> length (queue S) \<le> length (queue (queueWatcher hp r S))
       \<and> set (queue S) \<subseteq> set (queue (queueWatcher hp r S))
       \<and> set (drop (Suc (index S)) (queue S)) \<subseteq> set (drop (Suc (index S)) (queue (queueWatcher hp r S)))"
proof (cases "is_null (has S (wid S r))")
  case False
  then show ?thesis by (simp add: queueWatcher_marked)
next
  case True
  from queueWatcher_flushing_queue[OF assms(1) True assms(2), of hp]
  obtain p where p: "index S < p" "p \<le> length (queue S)"
    "queue (queueWatcher hp r S) = take p (queue S) @ [r] @ drop p (queue S)" by blast
  have a: "take (Suc (index S)) (queue (queueWatcher hp r S)) = take (Suc (index S)) (queue S)"
    unfolding p(3) by (rule take_insert_past[OF p(1) p(2)])
  have "set (queue S) = set (take p (queue S)) \<union> set (drop p (queue S))"
    by (simp only: set_append [symmetric] append_take_drop_id)
  then have b: "set (queue S) \<subseteq> set (queue (queueWatcher hp r S))"
    unfolding p(3) by auto
  have c: "length (queue S) \<le> length (queue (queueWatcher hp r S))"
    unfolding p(3) using p(2) by simp
  have "drop (Suc (index S)) (queue (queueWatcher hp r S)) =
      take (p - Suc (index S)) (drop (Suc (index S)) (queue S)) @ [r] @ drop p (queue S)"
    unfolding p(3) by (rule drop_insert_past[OF p(1) p(2)])
  also have "drop p (queue S) = drop (p - Suc (index S)) (drop (Suc (index S)) (queue S))"
    using p(1) by simp
  finally have e: "set (drop (Suc (index S)) (queue (queueWatcher hp r S))) =
      set (take (p - Suc (index S)) (drop (Suc (index S)) (queue S)))
      \<union> {r} \<union> set (drop (p - Suc (index S)) (drop (Suc (index S)) (queue S)))"
    by (simp only: set_append list.set) blast
  have "set (drop (Suc (index S)) (queue S)) =
      set (take (p - Suc (index S)) (drop (Suc (index S)) (queue S)))
      \<union> set (drop (p - Suc (index S)) (drop (Suc (index S)) (queue S)))"
    by (simp only: set_append [symmetric] append_take_drop_id)
  with e have d: "set (drop (Suc (index S)) (queue S)) \<subseteq> set (drop (Suc (index S)) (queue (queueWatcher hp r S)))"
    by blast
  from a b c d show ?thesis by blast
qed

lemma enqueue_all_fields:
  "flushing (enqueue_all hp rs S) = flushing S"
  "index (enqueue_all hp rs S) = index S"
  "watchers (enqueue_all hp rs S) = watchers S"
  "s_ran (enqueue_all hp rs S) = s_ran S"
  "s_user (enqueue_all hp rs S) = s_user S"
  "s_stack (enqueue_all hp rs S) = s_stack S"
  "circular (enqueue_all hp rs S) = circular S"
  by (induction rs arbitrary: S) (simp_all add: queueWatcher_fields)

lemma enqueue_all_prefix:
  "flushing S \<Longrightarrow> index S < length (queue S) \<Longrightarrow>
   take (Suc (index S)) (queue (enqueue_all hp rs S)) = take (Suc (index S)) (queue S)
   \<and> length (queue S) \<le> length (queue (enqueue_all hp rs S))
   \<and> set (queue S) \<subseteq> set (queue (enqueue_all hp rs S))
   \<and> set (drop (Suc (index S)) (queue S)) \<subseteq> set (drop (Suc (index S)) (queue (enqueue_all hp rs S)))"
proof (induction rs arbitrary: S)
  case Nil
  then show ?case by simp
next
  case (Cons r rs)
  note q = queueWatcher_prefix[OF Cons.prems, of hp r]
  have f: "flushing (queueWatcher hp r S)" using Cons.prems by (simp add: queueWatcher_fields)
  have i: "index (queueWatcher hp r S) < length (queue (queueWatcher hp r S))"
    using Cons.prems q by (simp add: queueWatcher_fields)
  from Cons.IH[OF f i] q show ?case by (auto simp add: queueWatcher_fields)
qed

lemma keeps_prefix_trans:
  "keeps_prefix S S1 \<Longrightarrow> keeps_prefix S1 S2 \<Longrightarrow> keeps_prefix S S2"
  unfolding keeps_prefix_def by auto

lemma keeps_prefix_enqueue_all:
  "flushing S \<Longrightarrow> index S < length (queue S) \<Longrightarrow> keeps_prefix S (enqueue_all hp rs S)"
  using enqueue_all_prefix[of S hp rs]
  by (simp add: keeps_prefix_def enqueue_all_fields)

lemma call_before_props:
  assumes fl: "flushing S" and i: "index S < length (queue S)"
  shows "keeps_prefix S (snd (call_before hp r S)) \<and> s_ran (snd (call_before hp r S)) = s_ran S"
proof (cases "before (watchers S r)")
  case None
  then show ?thesis using fl by (simp add: call_before_def keeps_prefix_def)
next
  case (Some f)
  let ?S0 = "S\<lparr>s_user := cb_after (f (s_user S))\<rparr>"
  have f0: "flushing ?S0" "index ?S0 < length (queue ?S0)" using fl i by simp_all
  have k: "keeps_prefix ?S0 (enqueue_all hp (cb_triggers (f (s_user S))) ?S0)"
    by (rule keeps_prefix_enqueue_all[OF f0])
  have k0: "keeps_prefix S ?S0" using fl by (simp add: keeps_prefix_def)
  have s: "snd (call_before hp r S) = enqueue_all hp (cb_triggers (f (s_user S))) ?S0"
    using Some by (simp add: call_before_def Let_def)
  show ?thesis unfolding s using keeps_prefix_trans[OF k0 k] by (simp add: enqueue_all_fields)
qed

lemma record_run_fields:
  "flushing (record_run r out S) = flushing S"
  "index (record_run r out S) = index S"
  "queue (record_run r out S) = queue S"
  "circular (record_run r out S) = circular S"
  "s_ran (record_run r out S) = s_ran S @ [r]"
  by (simp_all add: record_run_def)

lemma call_run_props:
  assumes fl: "flushing S" and i: "index S < length (queue S)"
  shows "keeps_prefix S (snd (call_run trav hp r S)) \<and> s_ran (snd (call_run trav hp r S)) = s_ran S @ [r]"
proof -
  let ?S1 = "S\<lparr>has := (has S)(wid S r \<mapsto> MNull)\<rparr>"
  let ?out = "run trav (watchers ?S1 r) (s_user ?S1) (s_stack ?S1)"
  let ?S2 = "record_run r ?out ?S1"
  have s: "snd (call_run trav hp r S) = enqueue_all hp (r_triggers ?out) ?S2"
    by (simp add: call_run_def Let_def)
  have f2: "flushing ?S2" "index ?S2 < length (queue ?S2)"
    using fl i by (simp_all add: record_run_fields)
  have k: "keeps_prefix ?S2 (enqueue_all hp (r_triggers ?out) ?S2)"
    by (rule keeps_prefix_enqueue_all[OF f2])
  have k0: "keeps_prefix S ?S2" using fl by (simp add: keeps_prefix_def record_run_fields)
  show ?thesis unfolding s using keeps_prefix_trans[OF k0 k]
    by (simp add: enqueue_all_fields record_run_fields)
qed

lemma flush_iteration_props:
  assumes fl: "flushing S" and i: "index S < length (queue S)"
  shows "keeps_prefix S (snd (flush_iteration trav hp S))
       \<and> (fst (flush_iteration trav hp S) = None \<longrightarrow>
            s_ran (snd (flush_iteration trav hp S)) = s_ran S @ [queue S ! index S])"
proof -
  let ?r = "queue S ! index S"
  obtain e S1 where b: "call_before hp ?r S = (e, S1)" by (cases "call_before hp ?r S")
  from call_before_props[OF fl i, of hp ?r] b
  have k1: "keeps_prefix S S1" and r1: "s_ran S1 = s_ran S" by simp_all
  show ?thesis
  proof (cases e)
    case (Some x)
    then have "flush_iteration trav hp S = (Some x, S1)"
      using b by (simp add: flush_iteration_def Let_def)
    with k1 show ?thesis by simp
  next
    case None
    then have it: "flush_iteration trav hp S = call_run trav hp ?r S1"
      using b by (simp add: flush_iteration_def Let_def)
    have f1: "flushing S1" "index S1 < length (queue S1)"
      using k1 i by (simp_all add: keeps_prefix_def)
    from call_run_props[OF f1, of trav hp ?r]
    have k2: "keeps_prefix S1 (snd (call_run trav hp ?r S1))"
      and r2: "s_ran (snd (call_run trav hp ?r S1)) = s_ran S1 @ [?r]" by simp_all
    show ?thesis unfolding it using keeps_prefix_trans[OF k1 k2] r2 r1 by simp
  qed
qed





subsection \<open>Errors during a flush\<close>

















subsection \<open>A watcher that keeps invalidating itself\<close>

lemma run_loop_watcher:
  "run trav loop_watcher u st =
     \<lparr>r_thrown = None, r_watcher = loop_watcher, r_calls = [], r_user = u, r_triggers = [1],
      r_reported = [], r_stack = st\<rparr>"
  by (simp add: run_def get_def loop_watcher_def Let_def cleanupDeps_def strict_eq_def isObject_def)

lemma queueWatcher_more:
  "s_reported (queueWatcher hp r S) = s_reported S"
  by (simp add: queueWatcher_def Let_def)

lemma looping_iteration:
  assumes "looping S"
  shows "fst (flush_iteration trav hp S) = None
       \<and> looping ((snd (flush_iteration trav hp S))\<lparr>index := index (snd (flush_iteration trav hp S)) + 1\<rparr>)"
proof -
  let ?r = "queue S ! index S"
  from assms have fl: "flushing S" and ws: "watchers S = (\<lambda>r. loop_watcher)"
    and i: "index S < length (queue S)" and ci: "circular S = Map.empty"
    and rp: "s_reported S = []" and rn: "length (s_ran S) = index S"
    by (simp_all add: looping_def)
  have b: "call_before hp ?r S = (None, S)"
    using ws by (simp add: call_before_def loop_watcher_def)
  let ?S1 = "S\<lparr>has := (has S)(wid S ?r \<mapsto> MNull)\<rparr>"
  let ?out = "run trav (watchers ?S1 ?r) (s_user ?S1) (s_stack ?S1)"
  let ?S2 = "record_run ?r ?out ?S1"
  have out: "?out = \<lparr>r_thrown = None, r_watcher = loop_watcher, r_calls = [], r_user = s_user S,
      r_triggers = [1], r_reported = [], r_stack = s_stack S\<rparr>"
    using ws by (simp add: run_loop_watcher)
  have w2: "watchers ?S2 = (\<lambda>r. loop_watcher)"
    using ws by (simp add: record_run_def run_loop_watcher fun_eq_iff)
  have wid2: "wid ?S2 1 = 1" "wid S ?r = 1"
    using w2 ws by (simp_all add: wid_def loop_watcher_def)
  have hs: "has ?S2 = (has S)(1 \<mapsto> MNull)"
    by (simp add: record_run_def wid2(2))
  have "is_null (((has S)(1 \<mapsto> MNull)) 1)" by (simp add: is_null_def)
  then have h2: "is_null (has ?S2 (wid ?S2 1))"
    by (simp only: hs wid2(1))
  have f2: "flushing ?S2" "index ?S2 < length (queue ?S2)" "index ?S2 = index S"
    "length (queue ?S2) = length (queue S)"
    using fl i by (simp_all add: record_run_fields)
  from queueWatcher_flushing_queue[OF f2(1) h2 f2(2), of hp]
  obtain p where p: "p \<le> length (queue ?S2)"
    "queue (queueWatcher hp 1 ?S2) = take p (queue ?S2) @ [1] @ drop p (queue ?S2)" by blast
  have len: "length (queue (queueWatcher hp 1 ?S2)) = Suc (length (queue S))"
    unfolding p(2) using p(1) f2(4) by simp
  have it: "flush_iteration trav hp S = (None, queueWatcher hp 1 ?S2)"
    using b ws by (simp add: flush_iteration_def Let_def call_run_def run_loop_watcher)
  have l: "looping ((queueWatcher hp 1 ?S2)\<lparr>index := index (queueWatcher hp 1 ?S2) + 1\<rparr>)"
    unfolding looping_def
    using fl ws i ci rp rn len
    by (simp add: queueWatcher_fields queueWatcher_more record_run_fields record_run_def run_loop_watcher fun_eq_iff)
  show ?thesis unfolding it using l by simp
qed

lemma looping_never_ends: "looping S \<Longrightarrow> flush_loop n trav hp S = None"
proof (induction n arbitrary: S)
  case 0
  then show ?case by simp
next
  case (Suc n)
  obtain e S1 where it: "flush_iteration trav hp S = (e, S1)" by (cases "flush_iteration trav hp S")
  from looping_iteration[OF Suc.prems, of trav hp] it
  have e: "e = None" and l: "looping (S1\<lparr>index := index S1 + 1\<rparr>)" by simp_all
  from Suc.prems have "index S < length (queue S)" by (simp add: looping_def)
  then show ?case using it e Suc.IH[OF l] by simp
qed

lemma looping_steps:
  "looping S \<Longrightarrow> looping (flush_steps k trav hp S)
     \<and> index (flush_steps k trav hp S) = index S + k"
proof (induction k arbitrary: S)
  case 0
  then show ?case by simp
next
  case (Suc k)
  obtain e S1 where it: "flush_iteration trav hp S = (e, S1)" by (cases "flush_iteration trav hp S")
  from looping_iteration[OF Suc.prems, of trav hp] it
  have e: "e = None" and l: "looping (S1\<lparr>index := index S1 + 1\<rparr>)" by simp_all
  from Suc.prems have i: "index S < length (queue S)" and fl: "flushing S" by (simp_all add: looping_def)
  from flush_iteration_props[OF fl i, of trav hp] it have "index S1 = index S"
    by (simp add: keeps_prefix_def)
  then show ?case using it e i Suc.IH[OF l] by simp
qed

lemma looping_start: "looping (flush_begin now loop_sched)"
  by (simp add: looping_def flush_begin_def loop_sched_def sample_sched_def Let_def)

text \<open>
  C4 does not hold of this scheduler.  \<open>MAX_UPDATE_COUNT\<close> and \<open>circular\<close> are
  declared, and \<open>circular\<close> is reset, but the loop never counts and never warns: with
  a watcher that enqueues itself on every run the flush is still running after any
  number of rounds; after \<open>k\<close> rounds the watcher has been run \<open>k\<close> times, the
  cursor is still inside the queue, \<open>circular\<close> is empty and nothing was reported.
\<close>

theorem runaway_cycle_unreported:
  "flushSchedulerQueue n trav hp production devtools now loop_sched = None
   \<and> length (s_ran (flush_steps k trav hp (flush_begin now loop_sched))) = k
   \<and> index (flush_steps k trav hp (flush_begin now loop_sched))
        < length (queue (flush_steps k trav hp (flush_begin now loop_sched)))
   \<and> circular (flush_steps k trav hp (flush_begin now loop_sched)) = Map.empty
   \<and> s_reported (flush_steps k trav hp (flush_begin now loop_sched)) = []"
proof -
  have a: "flushSchedulerQueue n trav hp production devtools now loop_sched = None"
    using looping_never_ends[OF looping_start, of n trav hp now]
    by (simp add: flushSchedulerQueue_def)
  have i0: "index (flush_begin now loop_sched) = 0" by (simp add: flush_begin_def Let_def)
  from looping_steps[OF looping_start, of k trav hp now] i0
  have "looping (flush_steps k trav hp (flush_begin now loop_sched))"
    "index (flush_steps k trav hp (flush_begin now loop_sched)) = k" by simp_all
  with a show ?thesis by (simp add: looping_def)
qed

subsection \<open>\<open>observe\<close> returns, and what it leaves alone\<close>

lemma same_kind_refl: "same_kind o1 o1"
  by (simp add: same_kind_def)

lemma same_kind_trans: "same_kind o1 o2 \<Longrightarrow> same_kind o2 o3 \<Longrightarrow> same_kind o1 o3"
  unfolding same_kind_def by auto

lemma evolves_refl: "evolves S S"
  by (simp add: evolves_def same_kind_refl)

lemma evolves_trans:
  assumes "evolves S S1" "evolves S1 S2"
  shows "evolves S S2"
proof -
  have k: "\<forall>a < length (objs S). same_kind (objs S ! a) (objs S2 ! a)"
  proof (intro allI impI)
    fix a assume a: "a < length (objs S)"
    with assms have "same_kind (objs S ! a) (objs S1 ! a)" "same_kind (objs S1 ! a) (objs S2 ! a)"
      by (simp_all add: evolves_def)
    then show "same_kind (objs S ! a) (objs S2 ! a)" by (rule same_kind_trans)
  qed
  have o: "\<forall>b < length (observers S).
            ob_dep (observers S2 ! b) = ob_dep (observers S ! b)
            \<and> ob_value (observers S2 ! b) = ob_value (observers S ! b)"
    using assms by (simp add: evolves_def)
  show ?thesis
    unfolding evolves_def using assms k o by (simp add: evolves_def)
qed

lemma filter_length_mono:
  "length xs = length ys \<Longrightarrow> (\<forall>i < length xs. P (ys ! i) \<longrightarrow> P (xs ! i)) \<Longrightarrow>
   length (filter P ys) \<le> length (filter P xs)"
proof (induction xs ys rule: list_induct2)
  case Nil
  then show ?case by simp
next
  case (Cons x xs y ys)
  have "\<forall>i < length xs. P (ys ! i) \<longrightarrow> P (xs ! i)"
  proof (intro allI impI)
    fix i assume "i < length xs" "P (ys ! i)"
    with Cons.prems[rule_format, of "Suc i"] show "P (xs ! i)" by simp
  qed
  with Cons.IH have ih: "length (filter P ys) \<le> length (filter P xs)" by simp
  from Cons.prems[rule_format, of 0] have "P y \<longrightarrow> P x" by simp
  with ih show ?case by auto
qed

lemma evolves_unobserved: "evolves S S1 \<Longrightarrow> unobserved S1 \<le> unobserved S"
  unfolding unobserved_def
  by (rule filter_length_mono) (auto simp add: evolves_def same_kind_def)

lemma filter_length_update_less:
  "a < length xs \<Longrightarrow> P (xs ! a) \<Longrightarrow> \<not> P y \<Longrightarrow>
   length (filter P (xs[a := y])) < length (filter P xs)"
proof (induction xs arbitrary: a)
  case Nil
  then show ?case by simp
next
  case (Cons x xs)
  show ?case
  proof (cases a)
    case 0
    with Cons.prems show ?thesis by simp
  next
    case (Suc a1)
    with Cons.prems Cons.IH[of a1] show ?thesis by auto
  qed
qed

lemma put_prop_keys: "fst ` set (put_prop k p ps) = insert k (fst ` set ps)"
proof (induction ps)
  case Nil
  show ?case by simp
next
  case (Cons x ps)
  obtain k1 p1 where x: "x = (k1, p1)" by (cases x)
  show ?case
  proof (cases "k1 = k")
    case True
    then show ?thesis by (simp add: x)
  next
    case False
    then show ?thesis using Cons.IH by (simp add: x insert_commute)
  qed
qed

lemma evolves_update_obj:
  "a < length (objs S) \<Longrightarrow> same_kind (objs S ! a) o2 \<Longrightarrow>
   evolves S (S\<lparr>objs := (objs S)[a := o2]\<rparr>)"
  by (simp add: evolves_def nth_list_update same_kind_refl)

lemma evolves_next_dep: "evolves S (S\<lparr>next_dep := d\<rparr>)"
  by (simp add: evolves_def same_kind_refl)

lemma same_kind_put_prop: "same_kind o1 (o1\<lparr>props := put_prop k p (props o1)\<rparr>)"
  by (auto simp add: same_kind_def put_prop_keys)

lemma evolves_kind:
  "evolves S S1 \<Longrightarrow> a < length (objs S) \<Longrightarrow> same_kind (objs S ! a) (objs S1 ! a)"
  by (simp add: evolves_def)

lemma evolves_length: "evolves S S1 \<Longrightarrow> length (objs S1) = length (objs S)"
  by (simp add: evolves_def)

lemma soundD:
  "sound obs \<Longrightarrow> obs v r S = Some res \<Longrightarrow> \<exists>x S1. res = Inr (x, S1) \<and> evolves S S1"
  unfolding sound_def by blast

lemma child_of_sound:
  "sound obs \<Longrightarrow> child_of obs sh v S = Some res \<Longrightarrow> \<exists>x S1. res = Inr (x, S1) \<and> evolves S S1"
  by (cases sh) (auto simp add: child_of_def evolves_refl dest: soundD)

lemma install_reactive_sound:
  assumes a: "a < length (objs S)"
    and k: "k \<in> fst ` set (props (objs S ! a)) \<or> extensible (objs S ! a)"
  shows "\<exists>S1. install_reactive a k c S = Some (Inr S1) \<and> evolves S S1"
proof -
  have ok: "\<not> (map_of (props (objs S ! a)) k = None \<and> \<not> extensible (objs S ! a))"
    using k by (auto simp add: map_of_eq_None_iff)
  let ?o2 = "(objs S ! a)\<lparr>props := put_prop k
                 \<lparr>configurable = True, enumerable = True, writable = False,
                  slot = Acc (ReactiveAccessor c)\<rparr> (props (objs S ! a))\<rparr>"
  have "install_reactive a k c S = Some (Inr (S\<lparr>objs := (objs S)[a := ?o2]\<rparr>))"
    using ok by (simp add: install_reactive_def Let_def)
  moreover have "evolves S (S\<lparr>objs := (objs S)[a := ?o2]\<rparr>)"
    by (rule evolves_update_obj[OF a same_kind_put_prop])
  ultimately show ?thesis by blast
qed

lemma kind_keeps_installable:
  "same_kind o1 o2 \<Longrightarrow> k \<in> fst ` set (props o1) \<or> extensible o1 \<Longrightarrow>
   k \<in> fst ` set (props o2) \<or> extensible o2"
  by (auto simp add: same_kind_def)

lemma defineReactive_with_sound:
  assumes so: "sound obs" and a: "a < length (objs S)"
    and k: "k \<in> fst ` set (props (objs S ! a)) \<or> extensible (objs S ! a)"
    and r: "defineReactive_with obs a k given sh S = Some res"
  shows "\<exists>S1. res = Inr S1 \<and> evolves S S1"
proof -
  let ?S0 = "S\<lparr>next_dep := next_dep S + 1\<rparr>"
  let ?property = "map_of (props (objs ?S0 ! a)) k"
  have e0: "evolves S ?S0" by (rule evolves_next_dep)
  show ?thesis
  proof (cases "case ?property of Some p \<Rightarrow> \<not> configurable p | None \<Rightarrow> False")
    case True
    then have "res = Inr ?S0" using r by (simp add: defineReactive_with_def Let_def)
    with e0 show ?thesis by blast
  next
    case False
    let ?prior = "prior_accessor ?property"
    let ?v = "initial_val ?prior given (h_user ?S0) (objs ?S0 ! a) k"
    obtain q where q: "child_of obs sh ?v ?S0 = Some q"
      using r False by (cases "child_of obs sh ?v ?S0") (simp_all add: defineReactive_with_def Let_def)
    from child_of_sound[OF so q] obtain ch S1 where q1: "q = Inr (ch, S1)" and e1: "evolves ?S0 S1"
      by blast
    have e01: "evolves S S1" by (rule evolves_trans[OF e0 e1])
    have a1: "a < length (objs S1)" using a evolves_length[OF e01] by simp
    have k1: "k \<in> fst ` set (props (objs S1 ! a)) \<or> extensible (objs S1 ! a)"
      by (rule kind_keeps_installable[OF evolves_kind[OF e01 a] k])
    have res: "Some res = install_reactive a k (Closure (next_dep S) ?v ?prior ch sh) S1"
      using r False q q1 by (simp add: defineReactive_with_def Let_def)
    from install_reactive_sound[OF a1 k1, of "Closure (next_dep S) ?v ?prior ch sh"] res
    obtain S2 where "res = Inr S2" "evolves S1 S2" by auto
    with e01 show ?thesis using evolves_trans by blast
  qed
qed

lemma total_uptoD: "total_upto n obs \<Longrightarrow> unobserved S < n \<Longrightarrow> obs v r S \<noteq> None"
  unfolding total_upto_def by blast

lemma child_of_total:
  "total_upto n obs \<Longrightarrow> unobserved S < n \<Longrightarrow> child_of obs sh v S \<noteq> None"
  by (cases sh) (auto simp add: child_of_def dest: total_uptoD)

lemma install_reactive_returns: "install_reactive a k c S \<noteq> None"
  by (simp add: install_reactive_def Let_def)

lemma defineReactive_with_total:
  assumes "total_upto n obs" "unobserved S < n"
  shows "defineReactive_with obs a k given sh S \<noteq> None"
proof -
  let ?S0 = "S\<lparr>next_dep := next_dep S + 1\<rparr>"
  have u: "unobserved ?S0 < n" using assms(2) by (simp add: unobserved_def)
  let ?property = "map_of (props (objs ?S0 ! a)) k"
  show ?thesis
  proof (cases "case ?property of Some p \<Rightarrow> \<not> configurable p | None \<Rightarrow> False")
    case True
    then show ?thesis by (simp add: defineReactive_with_def Let_def)
  next
    case False
    let ?prior = "prior_accessor ?property"
    let ?v = "initial_val ?prior given (h_user ?S0) (objs ?S0 ! a) k"
    from child_of_total[OF assms(1) u, of sh ?v]
    obtain q where q: "child_of obs sh ?v ?S0 = Some q" by blast
    show ?thesis
    proof (cases q)
      case (Inl e)
      then show ?thesis using False q by (simp add: defineReactive_with_def Let_def)
    next
      case (Inr x)
      obtain ch S1 where x: "x = (ch, S1)" by (cases x)
      show ?thesis using False q Inr x install_reactive_returns[of a k _ S1]
        by (simp add: defineReactive_with_def Let_def)
    qed
  qed
qed

lemma walk_with_sound:
  "sound obs \<Longrightarrow> a < length (objs S) \<Longrightarrow> set ks \<subseteq> fst ` set (props (objs S ! a)) \<Longrightarrow>
   walk_with obs a ks S = Some res \<Longrightarrow> \<exists>S1. res = Inr S1 \<and> evolves S S1"
proof (induction ks arbitrary: S)
  case Nil
  then show ?case by (auto simp add: evolves_refl)
next
  case (Cons k ks)
  obtain q where q: "defineReactive_with obs a k None False S = Some q"
    using Cons.prems(4) by (cases "defineReactive_with obs a k None False S") simp_all
  have kk: "k \<in> fst ` set (props (objs S ! a)) \<or> extensible (objs S ! a)"
    using Cons.prems(3) by simp
  from defineReactive_with_sound[OF Cons.prems(1,2) kk q]
  obtain S1 where q1: "q = Inr S1" and e1: "evolves S S1" by blast
  have a1: "a < length (objs S1)" using Cons.prems(2) evolves_length[OF e1] by simp
  have "fst ` set (props (objs S ! a)) \<subseteq> fst ` set (props (objs S1 ! a))"
    using evolves_kind[OF e1 Cons.prems(2)] by (simp add: same_kind_def)
  with Cons.prems(3) have ks1: "set ks \<subseteq> fst ` set (props (objs S1 ! a))" by auto
  have w: "walk_with obs a ks S1 = Some res" using Cons.prems(4) q q1 by simp
  from Cons.IH[OF Cons.prems(1) a1 ks1 w] obtain S2 where "res = Inr S2" "evolves S1 S2" by blast
  with e1 show ?case using evolves_trans by blast
qed

lemma walk_with_total:
  "sound obs \<Longrightarrow> total_upto n obs \<Longrightarrow> a < length (objs S) \<Longrightarrow>
   set ks \<subseteq> fst ` set (props (objs S ! a)) \<Longrightarrow> unobserved S < n \<Longrightarrow>
   walk_with obs a ks S \<noteq> None"
proof (induction ks arbitrary: S)
  case Nil
  then show ?case by simp
next
  case (Cons k ks)
  from defineReactive_with_total[OF Cons.prems(2,5)]
  obtain q where q: "defineReactive_with obs a k None False S = Some q" by blast
  have kk: "k \<in> fst ` set (props (objs S ! a)) \<or> extensible (objs S ! a)"
    using Cons.prems(4) by simp
  from defineReactive_with_sound[OF Cons.prems(1,3) kk q]
  obtain S1 where q1: "q = Inr S1" and e1: "evolves S S1" by blast
  have a1: "a < length (objs S1)" using Cons.prems(3) evolves_length[OF e1] by simp
  have "fst ` set (props (objs S ! a)) \<subseteq> fst ` set (props (objs S1 ! a))"
    using evolves_kind[OF e1 Cons.prems(3)] by (simp add: same_kind_def)
  with Cons.prems(4) have ks1: "set ks \<subseteq> fst ` set (props (objs S1 ! a))" by auto
  have u1: "unobserved S1 < n" using evolves_unobserved[OF e1] Cons.prems(5) by simp
  from Cons.IH[OF Cons.prems(1,2) a1 ks1 u1] show ?case using q q1 by simp
qed

lemma observeArray_with_sound:
  "sound obs \<Longrightarrow> observeArray_with obs vs S = Some res \<Longrightarrow> \<exists>S1. res = Inr S1 \<and> evolves S S1"
proof (induction vs arbitrary: S)
  case Nil
  then show ?case by (auto simp add: evolves_refl)
next
  case (Cons v vs)
  obtain q where q: "obs v False S = Some q"
    using Cons.prems(2) by (cases "obs v False S") simp_all
  from soundD[OF Cons.prems(1) q] obtain x S1 where q1: "q = Inr (x, S1)" and e1: "evolves S S1"
    by blast
  have w: "observeArray_with obs vs S1 = Some res" using Cons.prems(2) q q1 by simp
  from Cons.IH[OF Cons.prems(1) w] obtain S2 where "res = Inr S2" "evolves S1 S2" by blast
  with e1 show ?case using evolves_trans by blast
qed

lemma observeArray_with_total:
  "sound obs \<Longrightarrow> total_upto n obs \<Longrightarrow> unobserved S < n \<Longrightarrow> observeArray_with obs vs S \<noteq> None"
proof (induction vs arbitrary: S)
  case Nil
  then show ?case by simp
next
  case (Cons v vs)
  from total_uptoD[OF Cons.prems(2,3)] obtain q where q: "obs v False S = Some q" by blast
  from soundD[OF Cons.prems(1) q] obtain x S1 where q1: "q = Inr (x, S1)" and e1: "evolves S S1"
    by blast
  have u1: "unobserved S1 < n" using evolves_unobserved[OF e1] Cons.prems(3) by simp
  from Cons.IH[OF Cons.prems(1,2) u1] show ?case using q q1 by simp
qed

lemma evolves_attach:
  assumes a: "a < length (objs S)" and n: "ob (objs S ! a) = None"
  shows "evolves S (attach a S)"
  using a n by (simp add: attach_def evolves_def nth_list_update nth_append same_kind_def)

lemma attach_fields:
  "length (objs (attach a S)) = length (objs S)"
  "a < length (objs S) \<Longrightarrow> ob (objs (attach a S) ! a) = Some (length (observers S))"
  "a < length (objs S) \<Longrightarrow> props (objs (attach a S) ! a) = props (objs S ! a)"
  by (simp_all add: attach_def)

lemma evolves_augment: "a < length (objs S) \<Longrightarrow> evolves S (augment a S)"
  unfolding augment_def by (rule evolves_update_obj) (simp_all add: same_kind_def)

lemma augment_fields:
  "length (objs (augment a S)) = length (objs S)"
  "a < length (objs S) \<Longrightarrow> ob (objs (augment a S) ! a) = ob (objs S ! a)"
  by (simp_all add: augment_def)

lemma unobserved_attach:
  assumes a: "a < length (objs S)" and n: "ob (objs S ! a) = None"
  shows "unobserved (attach a S) < unobserved S"
  unfolding unobserved_def attach_def
  using filter_length_update_less[OF a, of "\<lambda>o1. ob o1 = None"] n
  by simp

lemma own_keys_subset: "set (own_keys o1) \<subseteq> fst ` set (props o1)"
  by (auto simp add: own_keys_def)

lemma new_Observer_with_sound:
  assumes so: "sound obs" and a: "a < length (objs S)" and n: "ob (objs S ! a) = None"
    and x: "extensible (objs S ! a)" and r: "new_Observer_with obs a S = Some res"
  shows "\<exists>S2. res = Inr (length (observers S), S2) \<and> evolves S S2
              \<and> ob (objs S2 ! a) = Some (length (observers S))"
proof -
  let ?b = "length (observers S)"
  let ?o = "objs S ! a"
  let ?S1 = "attach a S"
  let ?S1p = "augment a ?S1"
  have e1: "evolves S ?S1" by (rule evolves_attach[OF a n])
  have a1: "a < length (objs ?S1)" using a by (simp add: attach_fields)
  have ob1: "ob (objs ?S1 ! a) = Some ?b" using a by (simp add: attach_fields)
  have e1p: "evolves S ?S1p" by (rule evolves_trans[OF e1 evolves_augment[OF a1]])
  have ob1p: "ob (objs ?S1p ! a) = Some ?b" using a1 ob1 by (simp add: augment_fields)
  have a1p: "a < length (objs ?S1p)" using a1 by (simp add: augment_fields)
  let ?inner = "if isArray ?o then observeArray_with obs (elems ?o) ?S1p
                else walk_with obs a (own_keys ?o) ?S1"
  obtain q where q: "?inner = Some q"
    using r x by (cases ?inner) (simp_all add: new_Observer_with_def Let_def)
  have "\<exists>S2. q = Inr S2 \<and> evolves S S2 \<and> ob (objs S2 ! a) = Some ?b"
  proof (cases "isArray ?o")
    case True
    with q have "observeArray_with obs (elems ?o) ?S1p = Some q" by simp
    from observeArray_with_sound[OF so this] obtain S2 where s2: "q = Inr S2" "evolves ?S1p S2"
      by blast
    from evolves_kind[OF s2(2) a1p] ob1p have "ob (objs S2 ! a) = Some ?b"
      by (simp add: same_kind_def)
    with s2 e1p show ?thesis using evolves_trans by blast
  next
    case False
    with q have w: "walk_with obs a (own_keys ?o) ?S1 = Some q" by simp
    have ks: "set (own_keys ?o) \<subseteq> fst ` set (props (objs ?S1 ! a))"
      using own_keys_subset[of ?o] a by (simp add: attach_fields)
    from walk_with_sound[OF so a1 ks w] obtain S2 where s2: "q = Inr S2" "evolves ?S1 S2"
      by blast
    from evolves_kind[OF s2(2) a1] ob1 have "ob (objs S2 ! a) = Some ?b"
      by (simp add: same_kind_def)
    with s2 e1 show ?thesis using evolves_trans by blast
  qed
  then obtain S2 where s2: "q = Inr S2" "evolves S S2" "ob (objs S2 ! a) = Some ?b" by blast
  have "res = Inr (?b, S2)"
    using r x q s2(1) by (simp add: new_Observer_with_def Let_def)
  with s2 show ?thesis by blast
qed

lemma new_Observer_with_total:
  assumes so: "sound obs" and to: "total_upto n obs" and a: "a < length (objs S)"
    and n: "ob (objs S ! a) = None" and u: "unobserved S < Suc n"
  shows "new_Observer_with obs a S \<noteq> None"
proof (cases "extensible (objs S ! a)")
  case False
  then show ?thesis by (simp add: new_Observer_with_def Let_def)
next
  case True
  let ?o = "objs S ! a"
  let ?S1 = "attach a S"
  let ?S1p = "augment a ?S1"
  have a1: "a < length (objs ?S1)" using a by (simp add: attach_fields)
  have u1: "unobserved ?S1 < n" using unobserved_attach[OF a n] u by linarith
  have u1p: "unobserved ?S1p < n"
    using evolves_unobserved[OF evolves_augment[OF a1]] u1 by (rule le_less_trans)
  let ?inner = "if isArray ?o then observeArray_with obs (elems ?o) ?S1p
                else walk_with obs a (own_keys ?o) ?S1"
  have "?inner \<noteq> None"
  proof (cases "isArray ?o")
    case True
    then show ?thesis using observeArray_with_total[OF so to u1p] by simp
  next
    case False
    have ks: "set (own_keys ?o) \<subseteq> fst ` set (props (objs ?S1 ! a))"
      using own_keys_subset[of ?o] a by (simp add: attach_fields)
    from walk_with_total[OF so to a1 ks u1] False show ?thesis by simp
  qed
  then obtain q where q: "?inner = Some q" by blast
  show ?thesis using True q by (cases q) (simp_all add: new_Observer_with_def Let_def)
qed

lemma evolves_count_root: "evolves S (count_root r x S)"
proof (cases "\<exists>b. x = Some b \<and> r")
  case False
  then have "count_root r x S = S" by (cases x) (auto simp add: count_root_def)
  then show ?thesis by (simp add: evolves_refl)
next
  case True
  then obtain b where b: "x = Some b" "r" by blast
  let ?w = "(observers S ! b)\<lparr>vmCount := vmCount (observers S ! b) + 1\<rparr>"
  have c: "count_root r x S = S\<lparr>observers := (observers S)[b := ?w]\<rparr>"
    using b by (simp add: count_root_def)
  have "\<forall>i < length (observers S).
          ob_dep ((observers S)[b := ?w] ! i) = ob_dep (observers S ! i)
          \<and> ob_value ((observers S)[b := ?w] ! i) = ob_value (observers S ! i)"
  proof (intro allI impI)
    fix i assume i: "i < length (observers S)"
    show "ob_dep ((observers S)[b := ?w] ! i) = ob_dep (observers S ! i)
          \<and> ob_value ((observers S)[b := ?w] ! i) = ob_value (observers S ! i)"
      using i by (cases "i = b") simp_all
  qed
  then show ?thesis unfolding c by (simp add: evolves_def same_kind_refl)
qed

lemma count_root_objs: "objs (count_root r x S) = objs S"
  by (cases x) (simp_all add: count_root_def)

lemma wrapper_of_sound:
  assumes so: "sound obs" and a: "a < length (objs S)" and r: "wrapper_of obs E a S = Some res"
  shows "\<exists>x S1. res = Inr (x, S1) \<and> evolves S S1 \<and> (\<forall>b. x = Some b \<longrightarrow> ob (objs S1 ! a) = Some b)
     \<and> (ob (objs S ! a) \<noteq> None \<longrightarrow> x = ob (objs S ! a) \<and> S1 = S)
     \<and> (ob (objs S ! a) = None \<and> \<not> can_observe E S (objs S ! a) \<longrightarrow> x = None \<and> S1 = S)"
proof (cases "ob (objs S ! a)")
  case (Some b)
  then have "res = Inr (Some b, S)" using r by (simp add: wrapper_of_def)
  with Some show ?thesis by (simp add: evolves_refl)
next
  case None
  show ?thesis
  proof (cases "can_observe E S (objs S ! a)")
    case False
    then have "res = Inr (None, S)" using r None by (simp add: wrapper_of_def)
    with None False show ?thesis by (simp add: evolves_refl)
  next
    case True
    then have x: "extensible (objs S ! a)" by (simp add: can_observe_def)
    obtain q where q: "new_Observer_with obs a S = Some q"
      using r None True by (cases "new_Observer_with obs a S") (simp_all add: wrapper_of_def)
    from new_Observer_with_sound[OF so a None x q]
    obtain S2 where s2: "q = Inr (length (observers S), S2)" "evolves S S2"
      "ob (objs S2 ! a) = Some (length (observers S))" by blast
    have "res = Inr (Some (length (observers S)), S2)"
      using r None True q s2(1) by (simp add: wrapper_of_def)
    with s2 None True show ?thesis by simp
  qed
qed

lemma wrapper_of_total:
  assumes so: "sound obs" and to: "total_upto n obs" and a: "a < length (objs S)"
    and u: "unobserved S < Suc n"
  shows "wrapper_of obs E a S \<noteq> None"
proof (cases "ob (objs S ! a)")
  case (Some b)
  then show ?thesis by (simp add: wrapper_of_def)
next
  case None
  from new_Observer_with_total[OF so to a None u]
  obtain q where q: "new_Observer_with obs a S = Some q" by blast
  show ?thesis using None q
    by (cases q) (auto simp add: wrapper_of_def split: prod.splits)
qed

lemma observe_with_sound: "sound obs \<Longrightarrow> sound (observe_with obs E)"
  unfolding sound_def[of "observe_with obs E"]
proof (intro allI impI)
  fix v r S res
  assume so: "sound obs" and o: "observe_with obs E v r S = Some res"
  show "\<exists>x S1. res = Inr (x, S1) \<and> evolves S S1"
  proof (cases "\<exists>a. v = VRef a \<and> a < length (objs S) \<and> \<not> isVNode (objs S ! a)")
    case False
    then have "res = Inr (None, S)" using o by (cases v) (auto simp add: observe_with_def)
    then show ?thesis by (simp add: evolves_refl)
  next
    case True
    then obtain a where a: "v = VRef a" "a < length (objs S)" "\<not> isVNode (objs S ! a)" by blast
    obtain q where q: "wrapper_of obs E a S = Some q"
      using o a by (cases "wrapper_of obs E a S") (simp_all add: observe_with_def)
    from wrapper_of_sound[OF so a(2) q] obtain x S1 where s1: "q = Inr (x, S1)" "evolves S S1"
      by blast
    have "res = Inr (x, count_root r x S1)" using o a q s1(1) by (simp add: observe_with_def)
    moreover have "evolves S (count_root r x S1)"
      by (rule evolves_trans[OF s1(2) evolves_count_root])
    ultimately show ?thesis by blast
  qed
qed

lemma observe_with_total:
  fixes obs :: "val \<Rightarrow> bool \<Rightarrow> 'u hstate \<Rightarrow> (nat option \<times> 'u hstate) res"
  assumes so: "sound obs" and to: "total_upto n obs"
  shows "total_upto (Suc n) (observe_with obs E)"
  unfolding total_upto_def
proof (intro allI impI)
  fix v r and S :: "'u hstate"
  assume u: "unobserved S < Suc n"
  show "observe_with obs E v r S \<noteq> None"
  proof (cases "\<exists>a. v = VRef a \<and> a < length (objs S) \<and> \<not> isVNode (objs S ! a)")
    case False
    then show ?thesis by (cases v) (auto simp add: observe_with_def)
  next
    case True
    then obtain a where a: "v = VRef a" "a < length (objs S)" "\<not> isVNode (objs S ! a)" by blast
    from wrapper_of_total[OF so to a(2) u, of E]
    obtain q where q: "wrapper_of obs E a S = Some q" by blast
    show ?thesis using a q
      by (cases q) (auto simp add: observe_with_def split: prod.splits)
  qed
qed

lemma observe_sound: "sound (observe n E)"
proof (induction n)
  case 0
  show ?case by (simp add: sound_def)
next
  case (Suc n)
  then show ?case by (simp add: observe_with_sound)
qed

lemma observe_total: "total_upto n (observe n E)"
proof (induction n)
  case 0
  show ?case by (simp add: total_upto_def)
next
  case (Suc n)
  then show ?case using observe_with_total[OF observe_sound] by simp
qed

lemma observe_returns:
  assumes "unobserved S < n"
  shows "\<exists>x S1. observe n E v r S = Some (Inr (x, S1)) \<and> evolves S S1"
proof -
  from total_uptoD[OF observe_total assms, of E v r]
  obtain res where res: "observe n E v r S = Some res" by blast
  from soundD[OF observe_sound res] res show ?thesis by blast
qed

subsection \<open>Wrapping twice\<close>

lemma observe_wrapped:
  assumes "a < length (objs S)" "\<not> isVNode (objs S ! a)" "ob (objs S ! a) = Some b"
  shows "observe (Suc n) E (VRef a) r S = Some (Inr (Some b, count_root r (Some b) S))"
  using assms by (simp add: observe_with_def wrapper_of_def)

lemma observe_not_container:
  assumes "\<not> isObject v \<or> (\<exists>a. v = VRef a \<and> (length (objs S) \<le> a \<or> isVNode (objs S ! a)))"
  shows "observe (Suc n) E v r S = Some (Inr (None, S))"
  using assms by (cases v) (auto simp add: observe_with_def isObject_def)

lemma observe_refused:
  assumes "a < length (objs S)" "ob (objs S ! a) = None" "\<not> can_observe E S (objs S ! a)"
  shows "observe (Suc n) E (VRef a) r S = Some (Inr (None, S))"
  using assms by (simp add: observe_with_def wrapper_of_def count_root_def)

lemma observe_result_ob:
  assumes "observe n E v r S = Some (Inr (Some b, S1))"
  shows "\<exists>a. v = VRef a \<and> a < length (objs S1) \<and> \<not> isVNode (objs S1 ! a) \<and> ob (objs S1 ! a) = Some b"
proof (cases n)
  case 0
  with assms show ?thesis by simp
next
  case (Suc m)
  with assms have o: "observe_with (observe m E) E v r S = Some (Inr (Some b, S1))" by simp
  have ex: "\<exists>a. v = VRef a \<and> a < length (objs S) \<and> \<not> isVNode (objs S ! a)"
  proof (rule ccontr)
    assume "\<not> ?thesis"
    then have "observe_with (observe m E) E v r S = Some (Inr (None, S))"
      by (cases v) (auto simp add: observe_with_def)
    with o show False by simp
  qed
  then obtain a where a: "v = VRef a" "a < length (objs S)" "\<not> isVNode (objs S ! a)" by blast
  obtain q where q: "wrapper_of (observe m E) E a S = Some q"
    using o a by (cases "wrapper_of (observe m E) E a S") (simp_all add: observe_with_def)
  from wrapper_of_sound[OF observe_sound a(2) q]
  obtain x S2 where s2: "q = Inr (x, S2)" "evolves S S2" "\<forall>b. x = Some b \<longrightarrow> ob (objs S2 ! a) = Some b"
    by blast
  from o a q s2(1) have xs: "x = Some b" "S1 = count_root r x S2"
    by (auto simp add: observe_with_def)
  have k: "same_kind (objs S ! a) (objs S2 ! a)" by (rule evolves_kind[OF s2(2) a(2)])
  have "a < length (objs S1)" using a(2) evolves_length[OF s2(2)] xs by (simp add: count_root_objs)
  moreover have "\<not> isVNode (objs S1 ! a)" using k a(3) xs by (simp add: count_root_objs same_kind_def)
  moreover have "ob (objs S1 ! a) = Some b" using s2(3) xs by (simp add: count_root_objs)
  ultimately show ?thesis using a(1) by blast
qed

text \<open>
  C8, as the code has it.  A value that carries a wrapper (and is not a VNode) gets
  that wrapper back, whatever the flags say; so a second \<open>observe\<close> of a value
  returns the wrapper the first one returned.  \<open>observe\<close> returns nothing for a value
  that is not an object and for a VNode; and for an object without a wrapper it
  returns nothing, and changes nothing, when observation is switched off, when
  rendering on the server, when the object is not extensible, is a Vue instance, or
  is neither an array nor a plain object.  With more fuel than there are objects
  without a wrapper, \<open>observe\<close> returns.
\<close>

theorem observe_idempotent:
  "(a < length (objs S) \<and> \<not> isVNode (objs S ! a) \<and> ob (objs S ! a) = Some b \<longrightarrow>
      observe (Suc n) E (VRef a) r S = Some (Inr (Some b, count_root r (Some b) S)))
   \<and> (observe m E v r S = Some (Inr (Some b, S1)) \<longrightarrow>
      observe (Suc n) E v r2 S1 = Some (Inr (Some b, count_root r2 (Some b) S1)))
   \<and> (\<not> isObject v \<or> (\<exists>a. v = VRef a \<and> (length (objs S) \<le> a \<or> isVNode (objs S ! a))) \<longrightarrow>
      observe (Suc n) E v r S = Some (Inr (None, S)))
   \<and> (a < length (objs S) \<and> ob (objs S ! a) = None
       \<and> (\<not> shouldObserve S \<or> serverRendering E \<or> \<not> extensible (objs S ! a) \<or> isVue (objs S ! a)
            \<or> \<not> (isArray (objs S ! a) \<or> isPlain (objs S ! a))) \<longrightarrow>
      observe (Suc n) E (VRef a) r S = Some (Inr (None, S)))
   \<and> (unobserved S < m \<longrightarrow> (\<exists>x S2. observe m E v r S = Some (Inr (x, S2))))"
proof -
  have 1: "a < length (objs S) \<and> \<not> isVNode (objs S ! a) \<and> ob (objs S ! a) = Some b \<longrightarrow>
      observe (Suc n) E (VRef a) r S = Some (Inr (Some b, count_root r (Some b) S))"
    using observe_wrapped[of a S b n E r] by blast
  have 2: "observe m E v r S = Some (Inr (Some b, S1)) \<longrightarrow>
      observe (Suc n) E v r2 S1 = Some (Inr (Some b, count_root r2 (Some b) S1))"
  proof
    assume "observe m E v r S = Some (Inr (Some b, S1))"
    from observe_result_ob[OF this] obtain a1 where
      "v = VRef a1" "a1 < length (objs S1)" "\<not> isVNode (objs S1 ! a1)" "ob (objs S1 ! a1) = Some b"
      by blast
    then show "observe (Suc n) E v r2 S1 = Some (Inr (Some b, count_root r2 (Some b) S1))"
      using observe_wrapped[of a1 S1 b n E r2] by simp
  qed
  have 3: "\<not> isObject v \<or> (\<exists>a. v = VRef a \<and> (length (objs S) \<le> a \<or> isVNode (objs S ! a))) \<longrightarrow>
      observe (Suc n) E v r S = Some (Inr (None, S))"
    using observe_not_container[of v S n E r] by blast
  have 4: "a < length (objs S) \<and> ob (objs S ! a) = None
       \<and> (\<not> shouldObserve S \<or> serverRendering E \<or> \<not> extensible (objs S ! a) \<or> isVue (objs S ! a)
            \<or> \<not> (isArray (objs S ! a) \<or> isPlain (objs S ! a))) \<longrightarrow>
      observe (Suc n) E (VRef a) r S = Some (Inr (None, S))"
  proof
    assume h: "a < length (objs S) \<and> ob (objs S ! a) = None
       \<and> (\<not> shouldObserve S \<or> serverRendering E \<or> \<not> extensible (objs S ! a) \<or> isVue (objs S ! a)
            \<or> \<not> (isArray (objs S ! a) \<or> isPlain (objs S ! a)))"
    then have "\<not> can_observe E S (objs S ! a)" by (auto simp add: can_observe_def)
    with h show "observe (Suc n) E (VRef a) r S = Some (Inr (None, S))"
      using observe_refused[of a S E n r] by blast
  qed
  have 5: "unobserved S < m \<longrightarrow> (\<exists>x S2. observe m E v r S = Some (Inr (x, S2)))"
    using observe_returns[of S m E v r] by blast
  from 1 2 3 4 5 show ?thesis by blast
qed

theorem observe_idempotent_witness:
  "0 < length (objs disabled_heap) \<and> \<not> isVNode (objs disabled_heap ! 0)
   \<and> ob (objs disabled_heap ! 0) = Some 0
   \<and> observe (Suc 0) sample_env (VRef 0) True disabled_heap
        = Some (Inr (Some 0, count_root True (Some 0) disabled_heap))
   \<and> observe 5 sample_env (VRef 3) False sample_heap = Some (Inr (Some 0, observed_heap))
   \<and> observe (Suc 0) sample_env (VRef 3) False observed_heap
        = Some (Inr (Some 0, count_root False (Some 0) observed_heap))
   \<and> \<not> isObject (VNum 3)
   \<and> observe (Suc 0) sample_env (VNum 3) False sample_heap = Some (Inr (None, sample_heap))
   \<and> 4 < length (objs sample_heap) \<and> ob (objs sample_heap ! 4) = None
   \<and> \<not> extensible (objs sample_heap ! 4)
   \<and> observe (Suc 0) sample_env (VRef 4) False sample_heap = Some (Inr (None, sample_heap))
   \<and> unobserved sample_heap < 7
   \<and> observe 7 sample_env (VRef 0) False sample_heap \<noteq> None"
proof -
  have h1: "0 < length (objs disabled_heap) \<and> \<not> isVNode (objs disabled_heap ! 0)
      \<and> ob (objs disabled_heap ! 0) = Some 0" by code_simp
  have f: "(case observe 5 sample_env (VRef 3) False sample_heap of
              Some (Inr (Some b, S)) \<Rightarrow> b = 0 | _ \<Rightarrow> False)" by code_simp
  have h2: "observe 5 sample_env (VRef 3) False sample_heap = Some (Inr (Some 0, observed_heap))"
    using f by (auto simp add: observed_heap_def split: option.splits sum.splits prod.splits)
  have h3: "\<not> isObject (VNum 3)" by code_simp
  have h4: "4 < length (objs sample_heap) \<and> ob (objs sample_heap ! 4) = None
      \<and> \<not> extensible (objs sample_heap ! 4)" by code_simp
  have h5: "unobserved sample_heap < 7" by code_simp
  note a = observe_idempotent [of 0 disabled_heap 0 0 sample_env True 5 "VNum 3" observed_heap False]
  note b = observe_idempotent [of 4 sample_heap 0 0 sample_env False 5 "VRef 3" observed_heap False]
  note c = observe_idempotent [of 4 sample_heap 0 0 sample_env False 5 "VNum 3" observed_heap False]
  note d = observe_idempotent [of 4 sample_heap 0 0 sample_env False 7 "VRef 0" observed_heap False]
  from a h1 have c1: "observe (Suc 0) sample_env (VRef 0) True disabled_heap
        = Some (Inr (Some 0, count_root True (Some 0) disabled_heap))" by blast
  from b h2 have c2: "observe (Suc 0) sample_env (VRef 3) False observed_heap
        = Some (Inr (Some 0, count_root False (Some 0) observed_heap))" by blast
  from c h3 have c3: "observe (Suc 0) sample_env (VNum 3) False sample_heap = Some (Inr (None, sample_heap))"
    by blast
  from b h4 have c4: "observe (Suc 0) sample_env (VRef 4) False sample_heap = Some (Inr (None, sample_heap))"
    by blast
  from d h5 have c5: "observe 7 sample_env (VRef 0) False sample_heap \<noteq> None" by blast
  from h1 h2 h3 h4 h5 c1 c2 c3 c4 c5 show ?thesis by blast
qed

text \<open>
  The claim as stated fails where its two halves meet: with observation switched off,
  \<open>observe\<close> of a value that already carries a wrapper does not return nothing, it
  returns that wrapper.
\<close>

theorem observe_disabled_counterexample:
  "\<not> shouldObserve disabled_heap
   \<and> observe (Suc 0) sample_env (VRef 0) False disabled_heap = Some (Inr (Some 0, disabled_heap))"
  by (simp add: disabled_heap_def observe_with_def wrapper_of_def count_root_def plain_object_def)

subsection \<open>Writing a reactive field\<close>

lemma notify_fields:
  "objs (notify d S) = objs S" "notified (notify d S) = notified S @ [d]"
  "unobserved (notify d S) = unobserved S"
  by (simp_all add: notify_def unobserved_def)

lemma child_of_keeps:
  assumes "sound obs" "child_of obs sh v S = Some res"
  shows "\<exists>x S1. res = Inr (x, S1) \<and> notified S1 = notified S \<and> unobserved S1 \<le> unobserved S"
proof -
  from child_of_sound[OF assms] obtain x S1 where "res = Inr (x, S1)" "evolves S S1" by blast
  then show ?thesis using evolves_unobserved[of S S1] by (auto simp add: evolves_def)
qed

lemma reactiveSetter_noop:
  assumes "unchanged newVal (read_closure (h_user S) c) \<or> getter_only c"
  shows "reactiveSetter_with obs c newVal S = Some (Inr (c, S))"
proof (cases c)
  case (Closure d v prior ch sh)
  with assms show ?thesis by (auto simp add: getter_only_def Let_def)
qed

lemma reactiveSetter_step:
  assumes "\<not> unchanged newVal (read_closure (h_user S) (Closure d v prior ch sh))"
    and "\<not> getter_only (Closure d v prior ch sh)"
  shows "reactiveSetter_with obs (Closure d v prior ch sh) newVal S =
        (case (case prior of
                 Some (UserAccessor g (Some s)) \<Rightarrow>
                   Some (Inr (v, prior, S\<lparr>h_user := s newVal (h_user S)\<rparr>))
               | Some (ReactiveAccessor c) \<Rightarrow>
                   (case reactiveSetter_with obs c newVal S of
                      None \<Rightarrow> None
                    | Some (Inl e) \<Rightarrow> Some (Inl e)
                    | Some (Inr (c1, S1)) \<Rightarrow> Some (Inr (v, Some (ReactiveAccessor c1), S1)))
               | _ \<Rightarrow> Some (Inr (newVal, prior, S))) of
           None \<Rightarrow> None
         | Some (Inl e) \<Rightarrow> Some (Inl e)
         | Some (Inr (v1, prior1, S1)) \<Rightarrow>
             (case child_of obs sh newVal S1 of
                None \<Rightarrow> None
              | Some (Inl e) \<Rightarrow> Some (Inl e)
              | Some (Inr (ch1, S2)) \<Rightarrow>
                  Some (Inr (Closure d v1 prior1 ch1 sh, notify d S2))))"
  using assms by (auto simp add: getter_only_def Let_def simp del: read_closure.simps)

lemma reactiveSetter_with_effect:
  assumes so: "sound obs"
  shows "reactiveSetter_with obs c newVal S = Some res \<Longrightarrow>
     \<exists>c1 S1 ns. res = Inr (c1, S1) \<and> notified S1 = notified S @ ns
        \<and> unobserved S1 \<le> unobserved S
        \<and> (if unchanged newVal (read_closure (h_user S) c) \<or> getter_only c
            then ns = [] \<and> c1 = c \<and> S1 = S
            else \<exists>ms. ns = ms @ [c_dep c] \<and> set ms \<subseteq> set (inner_deps c))"
proof (induction c arbitrary: S res rule: measure_induct_rule[of size])
  case (less c)
  obtain d v prior ch sh where c: "c = Closure d v prior ch sh" by (cases c)
  show ?case
  proof (cases "unchanged newVal (read_closure (h_user S) c) \<or> getter_only c")
    case True
    from reactiveSetter_noop[OF True, of obs] less.prems have "res = Inr (c, S)" by simp
    with True show ?thesis by simp
  next
    case False
    then have nu: "\<not> unchanged newVal (read_closure (h_user S) (Closure d v prior ch sh))"
      and ng: "\<not> getter_only (Closure d v prior ch sh)" by (simp_all add: c)
    note step = reactiveSetter_step[OF nu ng, of obs]
    let ?store = "case prior of
                 Some (UserAccessor g (Some s)) \<Rightarrow>
                   Some (Inr (v, prior, S\<lparr>h_user := s newVal (h_user S)\<rparr>))
               | Some (ReactiveAccessor c) \<Rightarrow>
                   (case reactiveSetter_with obs c newVal S of
                      None \<Rightarrow> None
                    | Some (Inl e) \<Rightarrow> Some (Inl e)
                    | Some (Inr (c1, S1)) \<Rightarrow> Some (Inr (v, Some (ReactiveAccessor c1), S1)))
               | _ \<Rightarrow> Some (Inr (newVal, prior, S))"
    have st: "\<exists>v1 p1 S1 ms. ?store = Some (Inr (v1, p1, S1)) \<and> notified S1 = notified S @ ms
        \<and> unobserved S1 \<le> unobserved S \<and> set ms \<subseteq> set (inner_deps c)"
    proof (cases "\<exists>c2. prior = Some (ReactiveAccessor c2)")
      case True
      then obtain c2 where p: "prior = Some (ReactiveAccessor c2)" by blast
      have sz: "size c2 < size c" by (simp add: c p)
      obtain q where q: "reactiveSetter_with obs c2 newVal S = Some q"
        using less.prems step p
        by (cases "reactiveSetter_with obs c2 newVal S") (simp_all add: c)
      from less.IH[OF sz q] obtain c3 S1 ns where
        r: "q = Inr (c3, S1)" "notified S1 = notified S @ ns" "unobserved S1 \<le> unobserved S"
        and e: "if unchanged newVal (read_closure (h_user S) c2) \<or> getter_only c2
            then ns = [] \<and> c3 = c2 \<and> S1 = S
            else \<exists>ms. ns = ms @ [c_dep c2] \<and> set ms \<subseteq> set (inner_deps c2)"
        by blast
      have i: "inner_deps c = c_dep c2 # inner_deps c2" by (simp add: c p)
      have "set ns \<subseteq> set (inner_deps c)"
        using e unfolding i by (auto split: if_splits)
      moreover have "?store = Some (Inr (v, Some (ReactiveAccessor c3), S1))"
        using p q r(1) by simp
      ultimately show ?thesis using r by blast
    next
      case False
      then have "\<exists>v1 p1 S1. ?store = Some (Inr (v1, p1, S1)) \<and> notified S1 = notified S
          \<and> unobserved S1 = unobserved S"
        by (auto simp add: unobserved_def split: option.splits accessor.splits)
      then obtain v1 p1 S1 where "?store = Some (Inr (v1, p1, S1))" "notified S1 = notified S @ []"
        "unobserved S1 \<le> unobserved S" by auto
      then show ?thesis by (metis empty_set empty_subsetI)
    qed
    then obtain v1 p1 S1 ms where s1: "?store = Some (Inr (v1, p1, S1))"
      "notified S1 = notified S @ ms" "unobserved S1 \<le> unobserved S"
      "set ms \<subseteq> set (inner_deps c)" by blast
    obtain q where q: "child_of obs sh newVal S1 = Some q"
      using less.prems step s1(1) by (cases "child_of obs sh newVal S1") (simp_all add: c)
    from child_of_keeps[OF so q] obtain x S2 where
      s2: "q = Inr (x, S2)" "notified S2 = notified S1" "unobserved S2 \<le> unobserved S1" by blast
    have res: "res = Inr (Closure d v1 p1 x sh, notify d S2)"
      using less.prems step s1(1) q s2(1) by (simp add: c)
    have n: "notified (notify d S2) = notified S @ (ms @ [c_dep c])"
      using s1(2) s2(2) by (simp add: notify_fields c)
    have u: "unobserved (notify d S2) \<le> unobserved S"
      using s1(3) s2(3) by (simp add: notify_fields)
    from res n u s1(4) False show ?thesis by auto
  qed
qed

lemma reactiveSetter_with_total:
  assumes so: "sound obs" and to: "total_upto n obs"
  shows "unobserved S < n \<Longrightarrow> reactiveSetter_with obs c newVal S \<noteq> None"
proof (induction c arbitrary: S rule: measure_induct_rule[of size])
  case (less c)
  obtain d v prior ch sh where c: "c = Closure d v prior ch sh" by (cases c)
  show ?case
  proof (cases "unchanged newVal (read_closure (h_user S) c) \<or> getter_only c")
    case True
    from reactiveSetter_noop[OF True, of obs] show ?thesis by simp
  next
    case False
    then have nu: "\<not> unchanged newVal (read_closure (h_user S) (Closure d v prior ch sh))"
      and ng: "\<not> getter_only (Closure d v prior ch sh)" by (simp_all add: c)
    note step = reactiveSetter_step[OF nu ng, of obs]
    let ?store = "case prior of
                 Some (UserAccessor g (Some s)) \<Rightarrow>
                   Some (Inr (v, prior, S\<lparr>h_user := s newVal (h_user S)\<rparr>))
               | Some (ReactiveAccessor c) \<Rightarrow>
                   (case reactiveSetter_with obs c newVal S of
                      None \<Rightarrow> None
                    | Some (Inl e) \<Rightarrow> Some (Inl e)
                    | Some (Inr (c1, S1)) \<Rightarrow> Some (Inr (v, Some (ReactiveAccessor c1), S1)))
               | _ \<Rightarrow> Some (Inr (newVal, prior, S))"
    have st: "\<exists>v1 p1 S1. ?store = Some (Inr (v1, p1, S1)) \<and> unobserved S1 \<le> unobserved S"
    proof (cases "\<exists>c2. prior = Some (ReactiveAccessor c2)")
      case True
      then obtain c2 where p: "prior = Some (ReactiveAccessor c2)" by blast
      have sz: "size c2 < size c" by (simp add: c p)
      from less.IH[OF sz less.prems] obtain q where q: "reactiveSetter_with obs c2 newVal S = Some q"
        by blast
      from reactiveSetter_with_effect[OF so q] obtain c3 S1 where
        r: "q = Inr (c3, S1)" "unobserved S1 \<le> unobserved S" by blast
      have "?store = Some (Inr (v, Some (ReactiveAccessor c3), S1))"
        using p q r(1) by simp
      with r show ?thesis by blast
    next
      case False
      then show ?thesis
        by (auto simp add: unobserved_def split: option.splits accessor.splits)
    qed
    then obtain v1 p1 S1 where s1: "?store = Some (Inr (v1, p1, S1))"
      "unobserved S1 \<le> unobserved S" by blast
    have "unobserved S1 < n" using s1(2) less.prems by simp
    from child_of_total[OF to this, of sh newVal]
    obtain q where q: "child_of obs sh newVal S1 = Some q" by blast
    show ?thesis unfolding c step s1(1) using q
      by (cases q) (auto split: prod.splits)
  qed
qed

text \<open>
  C7.  With fuel for the \<open>observe\<close> of the new value, the intercepted write returns
  normally, and it calls \<open>notify()\<close> on the field's subject once if the new value
  differs from the current one (\<open>NaN\<close> counting as equal to \<open>NaN\<close>) and the field is
  not a getter without a setter, and not at all otherwise; in that other case neither
  the closure nor the state changes.  The subject of the field is assumed to differ
  from the subjects of the reactive accessors nested below it, as subject ids do.
\<close>

theorem reactive_write_notifies:
  assumes "unobserved S < n" and "c_dep c \<notin> set (inner_deps c)"
  shows "\<exists>c1 S1. reactiveSetter n E c newVal S = Some (Inr (c1, S1))
      \<and> count_list (notified S1) (c_dep c) =
          count_list (notified S) (c_dep c)
          + (if unchanged newVal (read_closure (h_user S) c) \<or> getter_only c then 0 else 1)
      \<and> (unchanged newVal (read_closure (h_user S) c) \<or> getter_only c \<longrightarrow> c1 = c \<and> S1 = S)"
proof -
  from reactiveSetter_with_total[OF observe_sound observe_total assms(1), of E c newVal]
  obtain res where res: "reactiveSetter n E c newVal S = Some res"
    by (auto simp add: reactiveSetter_def)
  from reactiveSetter_with_effect[OF observe_sound, of n E c newVal S res] res
  obtain c1 S1 ns where r: "res = Inr (c1, S1)" "notified S1 = notified S @ ns"
    and e: "if unchanged newVal (read_closure (h_user S) c) \<or> getter_only c
            then ns = [] \<and> c1 = c \<and> S1 = S
            else \<exists>ms. ns = ms @ [c_dep c] \<and> set ms \<subseteq> set (inner_deps c)"
    by (auto simp add: reactiveSetter_def)
  show ?thesis
  proof (cases "unchanged newVal (read_closure (h_user S) c) \<or> getter_only c")
    case True
    with e res r show ?thesis by simp
  next
    case False
    with e obtain ms where ms: "ns = ms @ [c_dep c]" "set ms \<subseteq> set (inner_deps c)" by auto
    with assms(2) have "c_dep c \<notin> set ms" by blast
    then have "count_list ms (c_dep c) = 0" by simp
    then have "count_list (notified S1) (c_dep c) = count_list (notified S) (c_dep c) + 1"
      by (simp add: r(2) ms(1))
    with False res r show ?thesis by simp
  qed
qed

theorem reactive_write_notifies_witness:
  "unobserved sample_heap < 7 \<and> c_dep nan_field \<notin> set (inner_deps nan_field)
   \<and> c_dep getter_only_field \<notin> set (inner_deps getter_only_field)
   \<and> \<not> (unchanged (VNum 2) (read_closure (h_user sample_heap) nan_field) \<or> getter_only nan_field)
   \<and> (case reactiveSetter 7 sample_env nan_field (VNum 2) sample_heap of
         Some (Inr (c1, S1)) \<Rightarrow> count_list (notified S1) 4 = 1
       | _ \<Rightarrow> False)
   \<and> unchanged VNaN (read_closure (h_user sample_heap) nan_field)
   \<and> reactiveSetter 7 sample_env nan_field VNaN sample_heap = Some (Inr (nan_field, sample_heap))
   \<and> getter_only getter_only_field
   \<and> reactiveSetter 7 sample_env getter_only_field (VNum 1) sample_heap
        = Some (Inr (getter_only_field, sample_heap))"
proof -
  have h1: "unobserved sample_heap < 7" by code_simp
  have h2: "c_dep nan_field \<notin> set (inner_deps nan_field)" by (simp add: nan_field_def)
  have h3: "c_dep getter_only_field \<notin> set (inner_deps getter_only_field)"
    by (simp add: getter_only_field_def)
  have h4: "\<not> (unchanged (VNum 2) (read_closure (h_user sample_heap) nan_field) \<or> getter_only nan_field)"
    by (simp add: nan_field_def unchanged_def strict_eq_def getter_only_def)
  have h5: "unchanged VNaN (read_closure (h_user sample_heap) nan_field)"
    by (simp add: nan_field_def unchanged_def strict_eq_def)
  have h6: "getter_only getter_only_field" by (simp add: getter_only_field_def getter_only_def)
  have n0: "notified sample_heap = []" "c_dep nan_field = 4" by (simp_all add: sample_heap_def nan_field_def)
  from reactive_write_notifies [OF h1 h2, of sample_env "VNum 2"] h4
  have c1: "case reactiveSetter 7 sample_env nan_field (VNum 2) sample_heap of
         Some (Inr (c1, S1)) \<Rightarrow> count_list (notified S1) 4 = 1
       | _ \<Rightarrow> False"
    by (auto simp add: n0)
  from reactive_write_notifies [OF h1 h2, of sample_env VNaN] h5
  have c2: "reactiveSetter 7 sample_env nan_field VNaN sample_heap = Some (Inr (nan_field, sample_heap))"
    by auto
  from reactive_write_notifies [OF h1 h3, of sample_env "VNum 1"] h6
  have c3: "reactiveSetter 7 sample_env getter_only_field (VNum 1) sample_heap
        = Some (Inr (getter_only_field, sample_heap))"
    by auto
  from h1 h2 h3 h4 h5 h6 c1 c2 c3 show ?thesis by blast
qed

subsection \<open>The intercepted array operations\<close>

lemma wrapper_of_creates:
  assumes so: "sound obs" and a: "a < length (objs S)" and r: "wrapper_of obs E a S = Some (Inr (x, S1))"
    and c: "ob (objs S ! a) \<noteq> None \<or> can_observe E S (objs S ! a)"
  shows "x \<noteq> None"
proof (cases "ob (objs S ! a)")
  case (Some b)
  with r have "Some (Inr (Some b, S)) = Some (Inr (x, S1))" by (simp add: wrapper_of_def)
  then have "x = Some b" by simp
  then show ?thesis by simp
next
  case None
  with c have co: "can_observe E S (objs S ! a)" by simp
  then have ex: "extensible (objs S ! a)" by (simp add: can_observe_def)
  obtain q where q: "new_Observer_with obs a S = Some q"
    using r None co by (cases "new_Observer_with obs a S") (simp_all add: wrapper_of_def)
  from new_Observer_with_sound[OF so a None ex q]
  obtain S2 where "q = Inr (length (observers S), S2)" by blast
  with r None co q show ?thesis by (auto simp add: wrapper_of_def)
qed

lemma evolves_wrapped: "evolves S S1 \<Longrightarrow> wrapped S v \<Longrightarrow> wrapped S1 v"
proof (cases v)
  case (VRef x)
  assume e: "evolves S S1" and w: "wrapped S v"
  from w VRef have x: "x < length (objs S)" "ob (objs S ! x) \<noteq> None" by (simp_all add: wrapped_def)
  from evolves_kind[OF e x(1)] x(2) have "ob (objs S1 ! x) \<noteq> None" by (simp add: same_kind_def)
  with x(1) evolves_length[OF e] VRef show ?thesis by (simp add: wrapped_def)
qed (simp_all add: wrapped_def)

lemma evolves_observable: "evolves S S1 \<Longrightarrow> observable E S v \<Longrightarrow> observable E S1 v"
proof (cases v)
  case (VRef x)
  assume e: "evolves S S1" and w: "observable E S v"
  from w VRef have x: "x < length (objs S)" "\<not> isVNode (objs S ! x)"
    "ob (objs S ! x) \<noteq> None \<or> can_observe E S (objs S ! x)" by (simp_all add: observable_def)
  from evolves_kind[OF e x(1)] have k: "same_kind (objs S ! x) (objs S1 ! x)" .
  have s: "shouldObserve S1 = shouldObserve S" using e by (simp add: evolves_def)
  have "ob (objs S1 ! x) \<noteq> None \<or> can_observe E S1 (objs S1 ! x)"
    using x(3) k s by (auto simp add: same_kind_def can_observe_def)
  moreover have "\<not> isVNode (objs S1 ! x)" using k x(2) by (simp add: same_kind_def)
  ultimately show ?thesis using x(1) evolves_length[OF e] VRef by (simp add: observable_def)
qed (simp_all add: observable_def)

lemma observe_wraps:
  assumes r: "observe n E v r S = Some (Inr (x, S1))" and o: "observable E S v"
  shows "wrapped S1 v"
proof (cases n)
  case 0
  with r show ?thesis by simp
next
  case (Suc m)
  from o obtain a where a: "v = VRef a" "a < length (objs S)" "\<not> isVNode (objs S ! a)"
    "ob (objs S ! a) \<noteq> None \<or> can_observe E S (objs S ! a)"
    by (cases v) (simp_all add: observable_def)
  obtain q where q: "wrapper_of (observe m E) E a S = Some q"
    using r a Suc by (cases "wrapper_of (observe m E) E a S") (simp_all add: observe_with_def)
  from wrapper_of_sound[OF observe_sound a(2) q]
  obtain y S2 where s2: "q = Inr (y, S2)" "evolves S S2" "\<forall>b. y = Some b \<longrightarrow> ob (objs S2 ! a) = Some b"
    by blast
  from wrapper_of_creates[OF observe_sound a(2) q[unfolded s2(1)] a(4)] have "y \<noteq> None" .
  with s2(3) have "ob (objs S2 ! a) \<noteq> None" by auto
  moreover have "S1 = count_root r y S2" using r a Suc q s2(1) by (auto simp add: observe_with_def)
  ultimately show ?thesis using a(1,2) evolves_length[OF s2(2)]
    by (simp add: wrapped_def count_root_objs)
qed

lemma observeArray_wraps:
  "observeArray_with (observe n E) vs S = Some (Inr S1) \<Longrightarrow>
   list_all (\<lambda>v. observable E S v \<longrightarrow> wrapped S1 v) vs"
proof (induction vs arbitrary: S)
  case Nil
  then show ?case by simp
next
  case (Cons v vs)
  obtain q where q: "observe n E v False S = Some q"
    using Cons.prems by (cases "observe n E v False S") simp_all
  from soundD[OF observe_sound q] obtain x S2 where s2: "q = Inr (x, S2)" "evolves S S2" by blast
  have rest: "observeArray_with (observe n E) vs S2 = Some (Inr S1)"
    using Cons.prems q s2(1) by simp
  from observeArray_with_sound[OF observe_sound rest] have e2: "evolves S2 S1" by simp
  have hd: "observable E S v \<longrightarrow> wrapped S1 v"
  proof
    assume "observable E S v"
    from observe_wraps[OF q[unfolded s2(1)] this] have "wrapped S2 v" .
    then show "wrapped S1 v" by (rule evolves_wrapped[OF e2])
  qed
  have "list_all (\<lambda>v. observable E S2 v \<longrightarrow> wrapped S1 v) vs" by (rule Cons.IH[OF rest])
  then have tl: "list_all (\<lambda>v. observable E S v \<longrightarrow> wrapped S1 v) vs"
    using evolves_observable[OF s2(2)] by (auto simp add: list_all_iff)
  from hd tl show ?case by simp
qed

text \<open>
  C6.  When the built-in operation returns and the array carries a wrapper, the
  intercepted operation (given fuel for observing) returns the built-in's result; it
  has handed to \<open>observeArray\<close> exactly the inserted values (all arguments for
  \<open>push\<close> and \<open>unshift\<close>, the arguments after the first two for \<open>splice\<close>, nothing
  for the other four), so every inserted value that can be observed carries a wrapper
  afterwards; and it has called \<open>notify()\<close> once, on the subject of the array's own
  wrapper, and on nothing else.
\<close>

theorem mutator_wraps_and_notifies:
  assumes nat: "original E m a args (objs S) = Inr (ret, H)"
    and ob: "ob (H ! a) = Some b" and b: "b < length (observers S)"
    and fuel: "unobserved (S\<lparr>objs := H\<rparr>) < n"
  shows "\<exists>S1. observeArray_with (observe n E) (inserted_values m args) (S\<lparr>objs := H\<rparr>) = Some (Inr S1)
     \<and> mutator n E m a args S = Some (Inr (ret, notify (ob_dep (observers S ! b)) S1))
     \<and> notified (notify (ob_dep (observers S ! b)) S1) = notified S @ [ob_dep (observers S ! b)]
     \<and> list_all (\<lambda>v. observable E (S\<lparr>objs := H\<rparr>) v \<longrightarrow> wrapped S1 v) (inserted_values m args)
     \<and> inserted_values m args =
         (case m of Push \<Rightarrow> args | Unshift \<Rightarrow> args | Splice \<Rightarrow> drop 2 args | _ \<Rightarrow> [])"
proof -
  let ?S0 = "S\<lparr>objs := H\<rparr>"
  let ?vs = "inserted_values m args"
  from observeArray_with_total[OF observe_sound observe_total fuel, of E ?vs]
  obtain q where q: "observeArray_with (observe n E) ?vs ?S0 = Some q" by blast
  from observeArray_with_sound[OF observe_sound q] obtain S1 where
    s1: "q = Inr S1" and e: "evolves ?S0 S1" by blast
  have oa: "observeArray_with (observe n E) ?vs ?S0 = Some (Inr S1)" using q s1 by simp
  have ins: "(case inserted m args of Some vs \<Rightarrow> observeArray_with (observe n E) vs ?S0
              | None \<Rightarrow> Some (Inr ?S0)) = Some (Inr S1)"
    using oa by (cases "inserted m args") (simp_all add: inserted_values_def)
  have d: "ob_dep (observers S1 ! b) = ob_dep (observers S ! b)"
    using e b by (simp add: evolves_def)
  have mu: "mutator n E m a args S = Some (Inr (ret, notify (ob_dep (observers S ! b)) S1))"
    using nat ob ins d by (simp add: mutator_def mutator_with_def Let_def)
  have nf: "notified (notify (ob_dep (observers S ! b)) S1) = notified S @ [ob_dep (observers S ! b)]"
    using e by (simp add: notify_fields evolves_def)
  note wr = observeArray_wraps[OF oa]
  have iv: "inserted_values m args =
         (case m of Push \<Rightarrow> args | Unshift \<Rightarrow> args | Splice \<Rightarrow> drop 2 args | _ \<Rightarrow> [])"
    by (cases m) (simp_all add: inserted_values_def)
  from oa mu nf wr iv show ?thesis by blast
qed

theorem mutator_wraps_and_notifies_witness:
  "original sample_env Push 2 [VRef 0, VNum 9] (objs array_heap) = Inr (fst pushed, snd pushed)
   \<and> ob (snd pushed ! 2) = Some 0 \<and> 0 < length (observers array_heap)
   \<and> unobserved (array_heap\<lparr>objs := snd pushed\<rparr>) < 7
   \<and> observable sample_env (array_heap\<lparr>objs := snd pushed\<rparr>) (VRef 0)
   \<and> fst pushed = VNum 4
   \<and> (case mutator 7 sample_env Push 2 [VRef 0, VNum 9] array_heap of
         Some (Inr (r, S2)) \<Rightarrow> r = VNum 4 \<and> notified S2 = [0] \<and> wrapped S2 (VRef 0)
       | _ \<Rightarrow> False)"
proof -
  have h1: "original sample_env Push 2 [VRef 0, VNum 9] (objs array_heap) = Inr (fst pushed, snd pushed)"
    by (simp add: sample_env_def simple_original_def pushed_def Let_def)
  have h2: "ob (snd pushed ! 2) = Some 0" by code_simp
  have h3: "0 < length (observers array_heap)" by code_simp
  have h4: "unobserved (array_heap\<lparr>objs := snd pushed\<rparr>) < 7" by code_simp
  have h5: "observable sample_env (array_heap\<lparr>objs := snd pushed\<rparr>) (VRef 0)" by code_simp
  have h6: "fst pushed = VNum 4" by code_simp
  have h7: "notified array_heap = []" by code_simp
  have h8: "ob_dep (observers array_heap ! 0) = 0" by code_simp
  from mutator_wraps_and_notifies [OF h1 h2 h3 h4]
  obtain S1 where s: "mutator 7 sample_env Push 2 [VRef 0, VNum 9] array_heap
        = Some (Inr (fst pushed, notify (ob_dep (observers array_heap ! 0)) S1))"
    "notified (notify (ob_dep (observers array_heap ! 0)) S1)
        = notified array_heap @ [ob_dep (observers array_heap ! 0)]"
    "list_all (\<lambda>v. observable sample_env (array_heap\<lparr>objs := snd pushed\<rparr>) v \<longrightarrow> wrapped S1 v)
       (inserted_values Push [VRef 0, VNum 9])"
    by blast
  from s(3) h5 have w: "wrapped S1 (VRef 0)" by (simp add: inserted_values_def)
  then have w2: "wrapped (notify (ob_dep (observers array_heap ! 0)) S1) (VRef 0)"
    by (simp add: wrapped_def notify_fields)
  have c: "case mutator 7 sample_env Push 2 [VRef 0, VNum 9] array_heap of
         Some (Inr (r, S2)) \<Rightarrow> r = VNum 4 \<and> notified S2 = [0] \<and> wrapped S2 (VRef 0)
       | _ \<Rightarrow> False"
    unfolding s(1) using s(2) w2 h6 h7 h8 by simp
  from h1 h2 h3 h4 h5 h6 c show ?thesis by blast
qed

subsection \<open>Adding a field with \<open>set\<close>\<close>








end
